theory Spec2Isabelle
  imports Complex_Main
begin

text \<open>
  A model of the sources of MusicToy and of what its specification says about them: the
  notes and scales of music.js, the events, tracks, pieces and the audio handler of
  piece.js, and the overdrive node. Every function of the sources that a property below
  is about is written out as a function of the same name; a loop is the recursive
  function of its body.
\<close>

section \<open>JavaScript numbers\<close>

text \<open>
  Times and clock positions are JavaScript numbers. The sources write the literals
  \<open>Infinity\<close> (Piece.stop) and \<open>-Infinity\<close> (Track.dispatch) themselves, so both are
  values of the model. A finite number is a real: comparison of doubles is comparison of
  the reals they denote, and addition is taken exact (no rounding). \<open>NaN\<close> is no value of
  the model: no time or clock position becomes \<open>NaN\<close> in the modelled code unless one
  is given as \<open>NaN\<close>.
\<close>

datatype jsnum = NegInfinity | Finite real | Infinity

instantiation jsnum :: linorder
begin

fun less_eq_jsnum :: "jsnum \<Rightarrow> jsnum \<Rightarrow> bool" where
  "less_eq_jsnum NegInfinity _ = True"
| "less_eq_jsnum (Finite a) NegInfinity = False"
| "less_eq_jsnum (Finite a) (Finite b) = (a \<le> b)"
| "less_eq_jsnum (Finite a) Infinity = True"
| "less_eq_jsnum Infinity NegInfinity = False"
| "less_eq_jsnum Infinity (Finite b) = False"
| "less_eq_jsnum Infinity Infinity = True"

definition less_jsnum :: "jsnum \<Rightarrow> jsnum \<Rightarrow> bool" where
  "less_jsnum a b = (a \<le> b \<and> \<not> b \<le> a)"

instance
proof
  fix x y z :: jsnum
  show "(x < y) = (x \<le> y \<and> \<not> y \<le> x)"
    by (simp add: less_jsnum_def)
  show "x \<le> x"
    by (cases x) simp_all
  show "x \<le> y \<Longrightarrow> y \<le> z \<Longrightarrow> x \<le> z"
    by (cases x; cases y; cases z) simp_all
  show "x \<le> y \<Longrightarrow> y \<le> x \<Longrightarrow> x = y"
    by (cases x; cases y) simp_all
  show "x \<le> y \<or> y \<le> x"
    by (cases x; cases y) auto
qed

end

text \<open>\<open>x + d\<close> for a finite \<open>d\<close>: the infinities absorb it.\<close>

fun js_add :: "jsnum \<Rightarrow> real \<Rightarrow> jsnum" where
  "js_add NegInfinity d = NegInfinity"
| "js_add (Finite a) d = Finite (a + d)"
| "js_add Infinity d = Infinity"

section \<open>Notes (music.js)\<close>

text \<open>
  \<open>assert(cond, msg)\<close> throws. The failures are told apart by what the assertion checks:
  a note name, a note number, a scale name, or the contract of the audio callback.
\<close>

datatype error = InvalidNoteName | InvalidNoteNumber | UnknownScale | ContractViolation

definition NUM_NOTES :: int where
  "NUM_NOTES = 128"

definition NOTES_PER_OCTAVE :: int where
  "NOTES_PER_OCTAVE = 12"

definition NOTE_NAME_PC :: "string \<rightharpoonup> int" where
  "NOTE_NAME_PC = map_of
     [(''C'', 0), (''C#'', 1), (''D'', 2), (''D#'', 3), (''E'', 4), (''F'', 5),
      (''F#'', 6), (''G'', 7), (''G#'', 8), (''A'', 9), (''A#'', 10), (''B'', 11)]"

definition PC_NOTE_NAME :: "int \<rightharpoonup> string" where
  "PC_NOTE_NAME = map_of
     [(0, ''C''), (1, ''C#''), (2, ''D''), (3, ''D#''), (4, ''E''), (5, ''F''),
      (6, ''F#''), (7, ''G''), (8, ''G#''), (9, ''A''), (10, ''A#''), (11, ''B'')]"

text \<open>
  A note object holds its number, an integer here. \<open>Note.notesByNo\<close> is the table of the
  notes made so far, passed along explicitly; a note is made once and never changed, so
  the object is identified with its content.
\<close>

datatype Note = Note_obj (noteNo: int)

type_synonym notes_table = "int \<rightharpoonup> Note"

text \<open>
  The regular expression \<open>/([A-G]#?)([0-9])/i\<close> of Note.nameToNo, searched as
  \<open>String.prototype.match\<close> does: the leftmost position where a letter A to G of
  either case, an optional \<open>#\<close> and one decimal digit follow each other. The result is
  the two groups. When a \<open>#\<close> follows the letter the digit has to come after it: without
  the \<open>#\<close> the digit would have to be the \<open>#\<close> itself.
\<close>

definition is_note_letter :: "char \<Rightarrow> bool" where
  "is_note_letter c = (c \<in> set ''ABCDEFGabcdefg'')"

definition is_digit :: "char \<Rightarrow> bool" where
  "is_digit c = (c \<in> set ''0123456789'')"

fun match_at :: "string \<Rightarrow> (string \<times> string) option" where
  "match_at (c # x # rest) =
     (if \<not> is_note_letter c then None
      else if x = CHR ''#'' then
        (case rest of
           [] \<Rightarrow> None
         | d # _ \<Rightarrow> if is_digit d then Some ([c, x], [d]) else None)
      else if is_digit x then Some ([c], [x])
      else None)"
| "match_at _ = None"

fun name_match :: "string \<Rightarrow> (string \<times> string) option" where
  "name_match [] = None"
| "name_match (c # cs) =
     (case match_at (c # cs) of
        Some m \<Rightarrow> Some m
      | None \<Rightarrow> name_match cs)"

text \<open>\<open>parseInt\<close> on a string of decimal digits.\<close>

definition parseInt :: "string \<Rightarrow> int" where
  "parseInt ds = foldl (\<lambda>acc d. 10 * acc + (of_char d - 48)) 0 ds"

text \<open>Note.nameToNo, with its three assertions in their order. The last one is written
  with \<open>||\<close> in the source.\<close>

definition nameToNo :: "string \<Rightarrow> error + int" where
  "nameToNo name =
     (case name_match name of
        None \<Rightarrow> Inl InvalidNoteName
      | Some (namePart, numPart) \<Rightarrow>
          (case NOTE_NAME_PC namePart of
             None \<Rightarrow> Inl InvalidNoteName
           | Some pc \<Rightarrow>
               (let octNo = parseInt numPart;
                    noteNo = (octNo + 1) * NOTES_PER_OCTAVE + pc
                in if noteNo \<ge> 0 \<or> noteNo < NUM_NOTES then Inr noteNo
                   else Inl InvalidNoteNumber)))"

text \<open>For comparison, the grammar \<open>^[A-Ga-g]#?-?[0-9]+$\<close> that the specification gives
  for note names: a letter, an optional \<open>#\<close>, an optional minus sign and one digit or
  more, and nothing else.\<close>

definition spec_name_grammar :: "string \<Rightarrow> bool" where
  "spec_name_grammar s =
     (case s of
        [] \<Rightarrow> False
      | c # r \<Rightarrow>
          is_note_letter c \<and>
          (let r1 = (case r of x # r' \<Rightarrow> if x = CHR ''#'' then r' else r | [] \<Rightarrow> r);
               r2 = (case r1 of x # r' \<Rightarrow> if x = CHR ''-'' then r' else r1 | [] \<Rightarrow> r1)
           in r2 \<noteq> [] \<and> list_all is_digit r2))"

text \<open>The argument of the constructor \<open>Note(val)\<close>: a string, a number, or something
  else, which the assertion \<open>typeof val === 'number'\<close> refuses.\<close>

datatype js_arg = Str string | Num int | Undefined

definition new_Note :: "js_arg \<Rightarrow> notes_table \<Rightarrow> error + (Note \<times> notes_table)" where
  "new_Note val notesByNo =
     (case (case val of
              Str name \<Rightarrow> nameToNo name
            | Num n \<Rightarrow> Inr n
            | Undefined \<Rightarrow> Inl InvalidNoteNumber) of
        Inl e \<Rightarrow> Inl e
      | Inr n \<Rightarrow>
          (case notesByNo n of
             Some note \<Rightarrow> Inr (note, notesByNo)
           | None \<Rightarrow> (let note = Note_obj n in Inr (note, notesByNo(n \<mapsto> note)))))"

text \<open>JavaScript's \<open>%\<close> takes the sign of the dividend; \<open>Math.floor(a / b)\<close> on integers
  is \<open>div\<close>.\<close>

definition js_rem :: "int \<Rightarrow> int \<Rightarrow> int" where
  "js_rem a b = sgn a * (\<bar>a\<bar> mod \<bar>b\<bar>)"

definition getPC :: "Note \<Rightarrow> int" where
  "getPC note = js_rem (noteNo note) NOTES_PER_OCTAVE"

definition getOctNo :: "Note \<Rightarrow> int" where
  "getOctNo note = noteNo note div NOTES_PER_OCTAVE - 1"

text \<open>\<open>String(n)\<close> for an integer: its decimal digits, after a minus sign when negative.\<close>

function string_of_nat :: "nat \<Rightarrow> string" where
  "string_of_nat n =
     (if n < 10 then [char_of (48 + n)]
      else string_of_nat (n div 10) @ [char_of (48 + n mod 10)])"
  by pat_completeness auto
termination
  by (relation "measure id") auto

declare string_of_nat.simps [simp del]

definition String_int :: "int \<Rightarrow> string" where
  "String_int i = (if i < 0 then CHR ''-'' # string_of_nat (nat (- i)) else string_of_nat (nat i))"

text \<open>Note.prototype.getName. A pitch class outside the table gives \<open>undefined\<close>, which
  \<open>+=\<close> turns into the text \<open>undefined\<close>.\<close>

definition getName :: "Note \<Rightarrow> string" where
  "getName note =
     (let octNo = getOctNo note;
          pc = getPC note;
          name = (case PC_NOTE_NAME pc of Some s \<Rightarrow> s | None \<Rightarrow> ''undefined'')
      in name @ String_int octNo)"

definition offset :: "Note \<Rightarrow> int \<Rightarrow> notes_table \<Rightarrow> error + (Note \<times> notes_table)" where
  "offset note numSemis notesByNo =
     (let offNo = noteNo note + numSemis
      in if offNo \<ge> 0 \<and> offNo < NUM_NOTES then new_Note (Num offNo) notesByNo
         else Inl InvalidNoteNumber)"

definition shift :: "Note \<Rightarrow> int \<Rightarrow> notes_table \<Rightarrow> error + (Note \<times> notes_table)" where
  "shift note numOcts notesByNo = offset note (numOcts * NOTES_PER_OCTAVE) notesByNo"

text \<open>The table \<open>Note.notesByNo\<close> as the constructor fills it: under a number stands
  the note of that number.\<close>

definition table_ok :: "notes_table \<Rightarrow> bool" where
  "table_ok notesByNo = (\<forall>n note. notesByNo n = Some note \<longrightarrow> noteNo note = n)"

section \<open>Scale generation (music.js)\<close>

definition scaleIntervs :: "string \<rightharpoonup> int list" where
  "scaleIntervs = map_of
     [(''major'', [2, 2, 1, 2, 2, 2]),
      (''natural minor'', [2, 1, 2, 2, 1, 2]),
      (''major pentatonic'', [2, 2, 3, 2]),
      (''minor pentatonic'', [3, 2, 2, 3]),
      (''blues'', [3, 2, 1, 1, 3]),
      (''chromatic'', [1, 1, 1, 1, 1, 1, 1, 1, 1, 1])]"

text \<open>The inner loop of genScale: each interval adds the note that lies that far from
  the last one of \<open>notes\<close>.\<close>

fun add_scale_notes ::
  "int list \<Rightarrow> Note list \<Rightarrow> notes_table \<Rightarrow> error + (Note list \<times> notes_table)" where
  "add_scale_notes [] notes notesByNo = Inr (notes, notesByNo)"
| "add_scale_notes (interv # intervs) notes notesByNo =
     (let prevNote = last notes in
      case offset prevNote interv notesByNo of
        Inl e \<Rightarrow> Inl e
      | Inr (note, notesByNo') \<Rightarrow> add_scale_notes intervs (notes @ [note]) notesByNo')"

text \<open>The outer loop of genScale, from octave \<open>octNo\<close> on.\<close>

function gen_octaves ::
  "Note \<Rightarrow> int list \<Rightarrow> nat \<Rightarrow> nat \<Rightarrow> Note list \<Rightarrow> notes_table \<Rightarrow>
   error + (Note list \<times> notes_table)" where
  "gen_octaves rootNote intervs numOctaves octNo notes notesByNo =
     (if octNo < numOctaves then
        (case shift rootNote (int octNo) notesByNo of
           Inl e \<Rightarrow> Inl e
         | Inr (octRoot, notesByNo') \<Rightarrow>
             (case add_scale_notes intervs (notes @ [octRoot]) notesByNo' of
                Inl e \<Rightarrow> Inl e
              | Inr (notes', notesByNo'') \<Rightarrow>
                  gen_octaves rootNote intervs numOctaves (octNo + 1) notes' notesByNo''))
      else Inr (notes, notesByNo))"
  by pat_completeness auto
termination
  by (relation "measure (\<lambda>(rootNote, intervs, numOctaves, octNo, notes, notesByNo).
        numOctaves - octNo)") auto

declare gen_octaves.simps [simp del]

text \<open>genScale. The root is a note object or an argument for the constructor; the number
  of octaves is a count, 1 when left out.\<close>

definition genScale ::
  "Note + js_arg \<Rightarrow> string \<Rightarrow> nat option \<Rightarrow> notes_table \<Rightarrow>
   error + (Note list \<times> notes_table)" where
  "genScale rootArg scale numOctavesArg notesByNo =
     (case (case rootArg of
              Inl note \<Rightarrow> Inr (note, notesByNo)
            | Inr val \<Rightarrow> new_Note val notesByNo) of
        Inl e \<Rightarrow> Inl e
      | Inr (rootNote, notesByNo1) \<Rightarrow>
          (let numOctaves = (case numOctavesArg of None \<Rightarrow> 1 | Some k \<Rightarrow> k) in
           case scaleIntervs scale of
             None \<Rightarrow> Inl UnknownScale
           | Some intervs \<Rightarrow>
               (case gen_octaves rootNote intervs numOctaves 0 [] notesByNo1 of
                  Inl e \<Rightarrow> Inl e
                | Inr (notes, notesByNo2) \<Rightarrow>
                    (case shift rootNote (int numOctaves) notesByNo2 of
                       Inl e \<Rightarrow> Inl e
                     | Inr (note, notesByNo3) \<Rightarrow> Inr (notes @ [note], notesByNo3)))))"

text \<open>The numbers of the notes that genScale is to produce, for stating its result: from
  the root of each octave the running sums of the intervals, and at the end the root
  \<open>numOctaves\<close> octaves up.\<close>

fun scale_steps :: "int \<Rightarrow> int list \<Rightarrow> int list" where
  "scale_steps r [] = [r]"
| "scale_steps r (interv # intervs) = r # scale_steps (r + interv) intervs"

definition scale_numbers :: "int \<Rightarrow> int list \<Rightarrow> nat \<Rightarrow> int list" where
  "scale_numbers r intervs numOctaves =
     concat (map (\<lambda>octNo. scale_steps (r + 12 * int octNo) intervs) [0..<numOctaves]) @
     [r + 12 * int numOctaves]"

section \<open>Synthesis events (piece.js)\<close>

text \<open>The three event classes share the field \<open>time\<close>. An event is given with all its
  fields; the defaults of the constructors for a missing note or velocity play no part
  here.\<close>

datatype SynthEvt =
    NoteOnEvt (time: jsnum) Note real
  | NoteOffEvt (time: jsnum) Note
  | AllNotesOffEvt (time: jsnum)

text \<open>
  The synthesis nodes are code outside these sources. What the piece does to them is the
  sequence of its calls: \<open>node.processEvent(evt, realTime)\<close> from Track.dispatch,
  \<open>node.processEvent(new AllNotesOffEvt())\<close> from Piece.stop (an event without a time,
  and no real time passed), and \<open>synthNet.genOutput(realTime)\<close> from the audio handler.
\<close>

datatype 'n call =
    ProcessEvent 'n SynthEvt jsnum
  | ProcessAllNotesOff 'n
  | GenOutput jsnum

section \<open>Tracks (piece.js)\<close>

record 'n Track =
  target :: "'n option"
  events :: "SynthEvt list"

definition new_Track :: "'n option \<Rightarrow> 'n Track" where
  "new_Track tgt = \<lparr>target = tgt, events = []\<rparr>"

text \<open>Track.prototype.addEvent: push, then sort unless the event went to the end.
  \<open>Array.prototype.sort\<close> with the comparator \<open>a.time - b.time\<close> is a stable sort by
  time (two equal infinities give \<open>NaN\<close>, which the sort reads as equal).\<close>

definition addEvent :: "'n Track \<Rightarrow> SynthEvt \<Rightarrow> 'n Track" where
  "addEvent tr evt =
     (let evs = events tr @ [evt] in
      if length evs = 1 \<or> time evt \<ge> time (evs ! (length evs - 2))
      then tr\<lparr>events := evs\<rparr>
      else tr\<lparr>events := sort_key time evs\<rparr>)"

text \<open>The binary search of Track.prototype.dispatch: the while loop over
  \<open>minIdx\<close>, \<open>maxIdx\<close> and \<open>midIdx\<close>; the result is the three variables when the
  loop is left, by \<open>break\<close> or by its condition.\<close>

function search :: "SynthEvt list \<Rightarrow> jsnum \<Rightarrow> int \<Rightarrow> int \<Rightarrow> int \<Rightarrow> int \<times> int \<times> int" where
  "search evs prevTime minIdx maxIdx midIdx =
     (if minIdx \<le> maxIdx then
        (let midIdx' = (minIdx + maxIdx) div 2;
             midTime = time (evs ! nat midIdx');
             leftTime = (if midIdx' = 0 then NegInfinity else time (evs ! nat (midIdx' - 1)))
         in if leftTime < prevTime \<and> midTime \<ge> prevTime then (minIdx, maxIdx, midIdx')
            else if midTime < prevTime then search evs prevTime (midIdx' + 1) maxIdx midIdx'
            else search evs prevTime minIdx (midIdx' - 1) midIdx')
      else (minIdx, maxIdx, midIdx))"
  by pat_completeness auto
termination
  by (relation "measure (\<lambda>(evs, prevTime, minIdx, maxIdx, midIdx). nat (maxIdx - minIdx + 1))") auto

declare search.simps [simp del]

text \<open>The for loop of Track.prototype.dispatch, from \<open>idx\<close> on. The lines written to the
  console are left out.\<close>

function dispatch_from :: "'n \<Rightarrow> SynthEvt list \<Rightarrow> jsnum \<Rightarrow> jsnum \<Rightarrow> nat \<Rightarrow> 'n call list" where
  "dispatch_from n evs curTime realTime idx =
     (if idx < length evs then
        (let evt = evs ! idx in
         if time evt \<ge> curTime then []
         else ProcessEvent n evt realTime # dispatch_from n evs curTime realTime (idx + 1))
      else [])"
  by pat_completeness auto
termination
  by (relation "measure (\<lambda>(n, evs, curTime, realTime, idx). length evs - idx)") auto

declare dispatch_from.simps [simp del]

definition Track_dispatch :: "'n Track \<Rightarrow> jsnum \<Rightarrow> jsnum \<Rightarrow> jsnum \<Rightarrow> 'n call list" where
  "Track_dispatch tr prevTime curTime realTime =
     (case target tr of
        None \<Rightarrow> []
      | Some n \<Rightarrow>
          if length (events tr) = 0 then []
          else (case search (events tr) prevTime 0 (int (length (events tr)) - 1) 0 of
                  (minIdx, maxIdx, midIdx) \<Rightarrow>
                    if minIdx > maxIdx then []
                    else dispatch_from n (events tr) curTime realTime (nat midIdx)))"

section \<open>Pieces (piece.js)\<close>

text \<open>The synthesis network is code outside these sources. The piece reads its list of
  nodes, its sample rate and the channel count of its output node.\<close>

record 'n SynthNet =
  nodes :: "'n list"
  sampleRate :: real
  outNode_numChans :: nat

record 'n Piece =
  synthNet :: "'n SynthNet option"
  tracks :: "'n Track list"
  playTime :: jsnum
  loopTime :: jsnum
  prevTime :: jsnum
  beatsPerMin :: real
  beatsPerBar :: real
  noteVal :: real

definition new_Piece :: "'n SynthNet option \<Rightarrow> 'n Piece" where
  "new_Piece net =
     \<lparr>synthNet = net, tracks = [], playTime = Finite 0, loopTime = Finite 0,
      prevTime = Finite 0, beatsPerMin = 140, beatsPerBar = 4, noteVal = 4\<rparr>"

definition setTime :: "'n Piece \<Rightarrow> jsnum \<Rightarrow> 'n Piece" where
  "setTime p t = p\<lparr>playTime := t\<rparr>"

text \<open>Piece.prototype.dispatch: every track in turn, then the new \<open>prevTime\<close>.\<close>

fun dispatch_tracks :: "'n Track list \<Rightarrow> jsnum \<Rightarrow> jsnum \<Rightarrow> jsnum \<Rightarrow> 'n call list" where
  "dispatch_tracks [] prevT curTime realTime = []"
| "dispatch_tracks (track # rest) prevT curTime realTime =
     Track_dispatch track prevT curTime realTime @ dispatch_tracks rest prevT curTime realTime"

definition Piece_dispatch :: "'n Piece \<Rightarrow> jsnum \<Rightarrow> jsnum \<Rightarrow> 'n Piece \<times> 'n call list" where
  "Piece_dispatch p curTime realTime =
     (p\<lparr>prevTime := curTime\<rparr>, dispatch_tracks (tracks p) (prevTime p) curTime realTime)"

text \<open>Piece.prototype.stop.\<close>

definition stop :: "'n Piece \<Rightarrow> 'n Piece \<times> 'n call list" where
  "stop p =
     (p\<lparr>playTime := Infinity\<rparr>,
      case synthNet p of
        None \<Rightarrow> []
      | Some net \<Rightarrow> map ProcessAllNotesOff (nodes net))"

text \<open>
  Piece.prototype.makeHandler. The closure keeps the sample rate and the output node of
  the network and its own two clocks; the piece stays shared with its other callers, so
  it is an argument and a result of every call of the handler. Without a network the
  read of \<open>synthNet.sampleRate\<close> throws.
\<close>

record handler =
  h_sampleRate :: real
  h_numChans :: nat
  curTime :: jsnum
  realTime :: jsnum

definition makeHandler :: "'n Piece \<Rightarrow> handler option" where
  "makeHandler p =
     (case synthNet p of
        None \<Rightarrow> None
      | Some net \<Rightarrow>
          Some \<lparr>h_sampleRate = sampleRate net, h_numChans = outNode_numChans net,
                curTime = playTime p, realTime = playTime p\<rparr>)"

text \<open>
  One round of the loop of \<open>genAudio\<close>, for one buffer of the synthesizer; \<open>q\<close> is
  \<open>SYNTH_BUF_SIZE / sampleRate\<close>. The copy of the samples from the output node into the
  buffer of the audio event reads and writes neither the piece nor the clocks and is
  left out.
\<close>

definition quantum :: "real \<Rightarrow> 'n Piece \<times> handler \<Rightarrow> ('n Piece \<times> handler) \<times> 'n call list" where
  "quantum q ph =
     (case ph of (p, h) \<Rightarrow>
      case Piece_dispatch p (curTime h) (realTime h) of (p1, c1) \<Rightarrow>
      let c2 = [GenOutput (realTime h)];
          curTime' = js_add (curTime h) q;
          realTime' = js_add (realTime h) q
      in if playTime p1 \<le> loopTime p1 \<and> curTime' > loopTime p1 then
           (case Piece_dispatch p1 (js_add (loopTime p1) 0.01) realTime' of (p2, c3) \<Rightarrow>
              ((p2\<lparr>prevTime := Finite 0, playTime := Finite 0\<rparr>,
                h\<lparr>curTime := Finite 0, realTime := realTime'\<rparr>),
               c1 @ c2 @ c3))
         else
           ((p1\<lparr>playTime := curTime'\<rparr>, h\<lparr>curTime := curTime', realTime := realTime'\<rparr>),
            c1 @ c2))"

text \<open>The loop of \<open>genAudio\<close> over \<open>smpIdx\<close>. \<open>SYNTH_BUF_SIZE\<close> is a constant of
  the synthesizer, not of these sources, and so a parameter; the loop is entered only
  with a positive one, since the assertion before it refuses 0. A sample rate of 0 is
  outside the model: there \<open>SYNTH_BUF_SIZE / sampleRate\<close> is \<open>Infinity\<close> in JavaScript.\<close>

function quanta ::
  "nat \<Rightarrow> nat \<Rightarrow> nat \<Rightarrow> 'n Piece \<times> handler \<Rightarrow> ('n Piece \<times> handler) \<times> 'n call list" where
  "quanta SYNTH_BUF_SIZE numSamples smpIdx ph =
     (if smpIdx < numSamples \<and> 0 < SYNTH_BUF_SIZE then
        (case quantum (real SYNTH_BUF_SIZE / h_sampleRate (snd ph)) ph of
           (ph', c) \<Rightarrow>
             (case quanta SYNTH_BUF_SIZE numSamples (smpIdx + SYNTH_BUF_SIZE) ph' of
                (ph'', c') \<Rightarrow> (ph'', c @ c')))
      else (ph, []))"
  by pat_completeness auto
termination
  by (relation "measure (\<lambda>(SYNTH_BUF_SIZE, numSamples, smpIdx, ph). numSamples - smpIdx)") auto

declare quanta.simps [simp del]

text \<open>The handler \<open>genAudio(evt)\<close>, for an event whose output buffer has \<open>numChans\<close>
  channels of \<open>numSamples\<close> samples. The clock follows the piece before the two
  assertions. \<open>numSamples % 0\<close> is \<open>NaN\<close>, which fails the second one.\<close>

definition genAudio ::
  "nat \<Rightarrow> nat \<Rightarrow> nat \<Rightarrow> 'n Piece \<times> handler \<Rightarrow>
   error + (('n Piece \<times> handler) \<times> 'n call list)" where
  "genAudio SYNTH_BUF_SIZE numChans numSamples ph =
     (case ph of (p, h) \<Rightarrow>
      let h1 = (if playTime p \<noteq> curTime h then h\<lparr>curTime := playTime p\<rparr> else h)
      in if numChans \<noteq> h_numChans h1 then Inl ContractViolation
         else if SYNTH_BUF_SIZE = 0 \<or> numSamples mod SYNTH_BUF_SIZE \<noteq> 0
           then Inl ContractViolation
         else Inr (quanta SYNTH_BUF_SIZE numSamples 0 (p, h1)))"

section \<open>The overdrive node\<close>

text \<open>
  The parameters of the node. Samples and parameters are reals and the arithmetic is
  exact. A factor of 0 is outside the model: there \<open>1 / this.factor\<close> is \<open>Infinity\<close>
  in JavaScript.
\<close>

record Overdrive =
  gain :: real
  threshold :: real
  factor :: real

definition new_Overdrive :: Overdrive where
  "new_Overdrive = \<lparr>gain = 1, threshold = 0.7, factor = 1\<rparr>"

text \<open>The body of the loop of Overdrive.prototype.update, for the input sample \<open>x\<close>,
  and the loop from the index \<open>i\<close> on. A write past the end of the output buffer is
  dropped, as a typed array does.\<close>

definition overdrive_sample :: "Overdrive \<Rightarrow> real \<Rightarrow> real" where
  "overdrive_sample od x =
     (let f = 1 / factor od;
          s = x * gain od;
          absS = \<bar>s\<bar>;
          d = absS - threshold od
      in if d > 0 then
           (let absS' = (absS - d) + (f * d) in if s > 0 then absS' else - absS')
         else s)"

function update_from :: "Overdrive \<Rightarrow> real list \<Rightarrow> nat \<Rightarrow> real list \<Rightarrow> real list" where
  "update_from od inBuf i outBuf =
     (if i < length inBuf
      then update_from od inBuf (i + 1) (outBuf[i := overdrive_sample od (inBuf ! i)])
      else outBuf)"
  by pat_completeness auto
termination
  by (relation "measure (\<lambda>(od, inBuf, i, outBuf). length inBuf - i)") auto

declare update_from.simps [simp del]

text \<open>Overdrive.prototype.update. The input port is outside these sources: it has no
  data (\<open>hasData()\<close> is false) or it has a buffer. The result is the output buffer.\<close>

definition Overdrive_update :: "Overdrive \<Rightarrow> real list option \<Rightarrow> real list \<Rightarrow> real list" where
  "Overdrive_update od input outBuf =
     (case input of
        None \<Rightarrow> outBuf
      | Some inBuf \<Rightarrow> update_from od inBuf 0 outBuf)"

section \<open>Properties of the tracks\<close>

lemma jsnum_less_simps [simp]:
  "NegInfinity < Finite a" "NegInfinity < Infinity" "Finite a < Infinity"
  "\<not> Finite a < NegInfinity" "\<not> Infinity < x" "\<not> x < NegInfinity"
  "(Finite a < Finite b) = (a < b)"
  by (cases x; auto simp: less_jsnum_def)+

lemma jsnum_NegInfinity_less [simp]: "NegInfinity < x \<longleftrightarrow> x \<noteq> NegInfinity"
  by (cases x) (auto simp: less_jsnum_def)

lemma dispatch_from_takeWhile:
  "dispatch_from n evs cur rt idx =
     map (\<lambda>e. ProcessEvent n e rt) (takeWhile (\<lambda>e. time e < cur) (drop idx evs))"
proof (induction n evs cur rt idx rule: dispatch_from.induct)
  case (1 n evs cur rt idx)
  show ?case
  proof (cases "idx < length evs")
    case True
    then have d: "drop idx evs = evs ! idx # drop (idx + 1) evs"
      by (simp add: Cons_nth_drop_Suc)
    show ?thesis
      using True 1 d by (subst dispatch_from.simps) (auto simp: Let_def not_le)
  next
    case False
    then show ?thesis by (subst dispatch_from.simps) simp
  qed
qed

lemma takeWhile_sorted_filter:
  "sorted (map f xs) \<Longrightarrow> takeWhile (\<lambda>e. f e < (c::'a::linorder)) xs = filter (\<lambda>e. f e < c) xs"
proof (induction xs)
  case Nil
  then show ?case by simp
next
  case (Cons x xs)
  show ?case
  proof (cases "f x < c")
    case True
    with Cons show ?thesis by simp
  next
    case False
    with Cons.prems have "\<forall>e\<in>set xs. \<not> f e < c" by auto
    then have "filter (\<lambda>e. f e < c) xs = []" by (simp add: filter_empty_conv)
    with False show ?thesis by simp
  qed
qed

lemma sorted_filter_ge_drop:
  fixes f :: "'a \<Rightarrow> 'b::linorder"
  assumes s: "sorted (map f xs)" and m: "m < length xs" and ge: "p \<le> f (xs ! m)"
    and lt: "m = 0 \<or> f (xs ! (m - 1)) < p"
  shows "filter (\<lambda>e. p \<le> f e) xs = drop m xs"
proof -
  have mono: "\<And>i j. i \<le> j \<Longrightarrow> j < length xs \<Longrightarrow> f (xs ! i) \<le> f (xs ! j)"
    using sorted_nth_mono [OF s] by fastforce
  have low: "\<forall>e\<in>set (take m xs). \<not> p \<le> f e"
  proof
    fix e assume "e \<in> set (take m xs)"
    then obtain i where i: "i < m" "e = xs ! i"
      by (auto simp: in_set_conv_nth)
    with lt have "f (xs ! (m - 1)) < p" by auto
    moreover have "f (xs ! i) \<le> f (xs ! (m - 1))"
      using i m by (intro mono) auto
    ultimately show "\<not> p \<le> f e" using i by auto
  qed
  have high: "\<forall>e\<in>set (drop m xs). p \<le> f e"
  proof
    fix e assume "e \<in> set (drop m xs)"
    then obtain i where i: "i < length xs - m" "e = xs ! (m + i)"
      by (auto simp: in_set_conv_nth)
    have "f (xs ! m) \<le> f (xs ! (m + i))"
      using i m by (intro mono) auto
    with ge i show "p \<le> f e" by auto
  qed
  have "filter (\<lambda>e. p \<le> f e) xs =
        filter (\<lambda>e. p \<le> f e) (take m xs) @ filter (\<lambda>e. p \<le> f e) (drop m xs)"
    by (metis append_take_drop_id filter_append)
  also have "filter (\<lambda>e. p \<le> f e) (take m xs) = []"
    using low by (simp add: filter_empty_conv)
  also have "filter (\<lambda>e. p \<le> f e) (drop m xs) = drop m xs"
    using high by (simp add: filter_id_conv)
  finally show ?thesis by simp
qed

lemma search_correct:
  "sorted (map time evs) \<Longrightarrow> prev \<noteq> NegInfinity \<Longrightarrow>
   0 \<le> lo \<Longrightarrow> hi < int (length evs) \<Longrightarrow> lo \<le> hi + 1 \<Longrightarrow>
   (\<forall>i. i < nat lo \<longrightarrow> time (evs ! i) < prev) \<Longrightarrow>
   (hi < int (length evs) - 1 \<longrightarrow> 0 \<le> hi \<and> prev \<le> time (evs ! nat hi)) \<Longrightarrow>
   (case search evs prev lo hi mid of
      (lo', hi', mid') \<Rightarrow>
        if lo' \<le> hi'
        then 0 \<le> mid' \<and> mid' < int (length evs) \<and> prev \<le> time (evs ! nat mid') \<and>
             (mid' = 0 \<or> time (evs ! nat (mid' - 1)) < prev)
        else (\<forall>e\<in>set evs. time e < prev))"
proof (induction evs prev lo hi mid rule: search.induct)
  case (1 evs prev lo hi mid)
  define m where "m = (lo + hi) div 2"
  note s = "1.prems"(1) and p = "1.prems"(2)
  have mono: "\<And>i j. i \<le> j \<Longrightarrow> j < length evs \<Longrightarrow> time (evs ! i) \<le> time (evs ! j)"
    using sorted_nth_mono [OF s] by fastforce
  show ?case
  proof (cases "lo \<le> hi")
    case False
    with "1.prems" have eq: "lo = hi + 1" by simp
    have "hi = int (length evs) - 1"
    proof (rule ccontr)
      assume "hi \<noteq> int (length evs) - 1"
      with "1.prems" have h: "0 \<le> hi" "prev \<le> time (evs ! nat hi)" by auto
      then have "nat hi < nat lo" using eq by simp
      with "1.prems" have "time (evs ! nat hi) < prev" by blast
      with h show False by simp
    qed
    with eq have "nat lo = length evs" by simp
    with "1.prems" have "\<forall>e\<in>set evs. time e < prev"
      by (auto simp: in_set_conv_nth)
    with False show ?thesis by (subst search.simps) simp
  next
    case True
    have mb: "lo \<le> m" "m \<le> hi" using True by (auto simp: m_def)
    then have m0: "0 \<le> m" "m < int (length evs)" using "1.prems" by auto
    let ?left = "if m = 0 then NegInfinity else time (evs ! nat (m - 1))"
    have unf: "search evs prev lo hi mid =
        (if ?left < prev \<and> prev \<le> time (evs ! nat m) then (lo, hi, m)
         else if time (evs ! nat m) < prev then search evs prev (m + 1) hi m
         else search evs prev lo (m - 1) m)"
      using True unfolding m_def by (subst search.simps) (simp add: Let_def)
    show ?thesis
    proof (cases "?left < prev \<and> prev \<le> time (evs ! nat m)")
      case brk: True
      then have "search evs prev lo hi mid = (lo, hi, m)"
        by (simp add: unf)
      moreover have "m = 0 \<or> time (evs ! nat (m - 1)) < prev"
        using brk by (auto split: if_splits)
      ultimately show ?thesis using True m0 brk by simp
    next
      case nobrk: False
      show ?thesis
      proof (cases "time (evs ! nat m) < prev")
        case lt: True
        have eq: "search evs prev lo hi mid = search evs prev (m + 1) hi m"
          using nobrk lt by (auto simp: unf)
        have below: "\<forall>i. i < nat (m + 1) \<longrightarrow> time (evs ! i) < prev"
        proof (intro allI impI)
          fix i assume "i < nat (m + 1)"
          then have "i \<le> nat m" using m0 by simp
          then have "time (evs ! i) \<le> time (evs ! nat m)"
            using m0 by (intro mono) auto
          with lt show "time (evs ! i) < prev" by simp
        qed
        have "case search evs prev (m + 1) hi m of
                (lo', hi', mid') \<Rightarrow>
                  if lo' \<le> hi'
                  then 0 \<le> mid' \<and> mid' < int (length evs) \<and> prev \<le> time (evs ! nat mid') \<and>
                       (mid' = 0 \<or> time (evs ! nat (mid' - 1)) < prev)
                  else (\<forall>e\<in>set evs. time e < prev)"
          using True nobrk lt s p m0 mb below "1.prems"(4,7)
          by (intro "1.IH"(1) [where x = m]) (auto simp: m_def)
        with eq show ?thesis by simp
      next
        case ge: False
        have eq: "search evs prev lo hi mid = search evs prev lo (m - 1) m"
          using nobrk ge by (auto simp: unf)
        from nobrk ge p have mpos: "m \<noteq> 0" and left: "prev \<le> time (evs ! nat (m - 1))"
          by (auto split: if_splits)
        have "case search evs prev lo (m - 1) m of
                (lo', hi', mid') \<Rightarrow>
                  if lo' \<le> hi'
                  then 0 \<le> mid' \<and> mid' < int (length evs) \<and> prev \<le> time (evs ! nat mid') \<and>
                       (mid' = 0 \<or> time (evs ! nat (mid' - 1)) < prev)
                  else (\<forall>e\<in>set evs. time e < prev)"
          using True nobrk ge s p m0 mb mpos left "1.prems"(3,6)
          by (intro "1.IH"(2) [where x = m]) (auto simp: m_def)
        with eq show ?thesis by simp
      qed
    qed
  qed
qed

lemma search_NegInfinity:
  "prev = NegInfinity \<Longrightarrow> search evs prev lo hi mid = (lo', hi', mid') \<Longrightarrow> hi' < lo'"
proof (induction evs prev lo hi mid rule: search.induct)
  case (1 evs prev lo hi mid)
  show ?case
  proof (cases "lo \<le> hi")
    case False
    with "1.prems"(2) show ?thesis by (subst (asm) search.simps) simp
  next
    case True
    define m where "m = (lo + hi) div 2"
    have unf: "search evs prev lo hi mid = search evs prev lo (m - 1) m"
      using True "1.prems"(1) unfolding m_def by (subst search.simps) (simp add: Let_def)
    from "1.prems" unf have "search evs prev lo (m - 1) m = (lo', hi', mid')" by simp
    moreover have "\<not> (NegInfinity < prev \<and> prev \<le> time (evs ! nat m))" 
      "\<not> time (evs ! nat m) < prev"
      using "1.prems"(1) by simp_all
    ultimately show ?thesis
      using "1.IH"(2) [OF True refl refl refl] "1.prems"(1) by (simp add: m_def)
  qed
qed

text \<open>A window that ends where it begins, or before, delivers nothing, whatever the
  order of the events.\<close>

lemma search_break:
  "search evs prev lo hi mid = (lo', hi', mid') \<Longrightarrow> lo' \<le> hi' \<Longrightarrow>
   prev \<le> time (evs ! nat mid')"
proof (induction evs prev lo hi mid rule: search.induct)
  case (1 evs prev lo hi mid)
  define m where "m = (lo + hi) div 2"
  let ?left = "if m = 0 then NegInfinity else time (evs ! nat (m - 1))"
  show ?case
  proof (cases "lo \<le> hi")
    case False
    with "1.prems" show ?thesis
      by (subst (asm) search.simps) simp
  next
    case True
    have unf: "search evs prev lo hi mid =
        (if ?left < prev \<and> prev \<le> time (evs ! nat m) then (lo, hi, m)
         else if time (evs ! nat m) < prev then search evs prev (m + 1) hi m
         else search evs prev lo (m - 1) m)"
      using True unfolding m_def by (subst search.simps) (simp add: Let_def)
    show ?thesis
    proof (cases "?left < prev \<and> prev \<le> time (evs ! nat m)")
      case brk: True
      with "1.prems"(1) unf have "mid' = m" by simp
      with brk show ?thesis by simp
    next
      case nobrk: False
      show ?thesis
      proof (cases "time (evs ! nat m) < prev")
        case lt: True
        with nobrk "1.prems"(1) unf have "search evs prev (m + 1) hi m = (lo', hi', mid')"
          by auto
        with "1.IH"(1) [where x = m] True nobrk lt "1.prems"(2) show ?thesis
          by (auto simp: m_def)
      next
        case ge: False
        with nobrk "1.prems"(1) unf have "search evs prev lo (m - 1) m = (lo', hi', mid')"
          by auto
        with "1.IH"(2) [where x = m] True nobrk ge "1.prems"(2) show ?thesis
          by (auto simp: m_def)
      qed
    qed
  qed
qed

lemma Track_dispatch_empty_window:
  assumes "cur \<le> prev"
  shows "Track_dispatch tr prev cur rt = []"
proof (cases "target tr")
  case None
  then show ?thesis by (simp add: Track_dispatch_def)
next
  case (Some n)
  obtain lo' hi' mid' where r: "search (events tr) prev 0 (int (length (events tr)) - 1) 0 = (lo', hi', mid')"
    by (metis prod_cases3)
  show ?thesis
  proof (cases "events tr \<noteq> [] \<and> lo' \<le> hi'")
    case False
    with Some r show ?thesis by (auto simp: Track_dispatch_def)
  next
    case True
    from search_break [OF r] True assms have "cur \<le> time (events tr ! nat mid')"
      by auto
    then have "dispatch_from n (events tr) cur rt (nat mid') = []"
      by (subst dispatch_from.simps) (simp add: Let_def)
    with Some r True show ?thesis by (simp add: Track_dispatch_def)
  qed
qed

text \<open>The value \<open>-Infinity\<close> is the mark of the search for "no event to the left" of
  the first event. Given as \<open>prev\<close> it is never strictly above a left neighbour, so the
  search finds no start and the call delivers nothing.\<close>

lemma Track_dispatch_NegInfinity:
  "Track_dispatch tr NegInfinity cur rt = []"
proof (cases "target tr")
  case None
  then show ?thesis by (simp add: Track_dispatch_def)
next
  case (Some n)
  obtain lo' hi' mid' where r: "search (events tr) NegInfinity 0 (int (length (events tr)) - 1) 0 = (lo', hi', mid')"
    by (metis prod_cases3)
  from search_NegInfinity [OF refl r] r Some show ?thesis
    by (simp add: Track_dispatch_def)
qed

text \<open>
  Claim C1. For a track with a target node and events sorted by time,
  \<open>Track.dispatch(prev, cur, rt)\<close> calls \<open>processEvent\<close> of the target, with \<open>rt\<close>,
  for exactly the events whose time lies in the window from \<open>prev\<close> (included) to
  \<open>cur\<close> (excluded): each of them once, in the order of the track, which is the order of
  their times, and for no other event. Here \<open>prev\<close> is a playback position: a finite
  time, or \<open>Infinity\<close>, the position that \<open>Piece.stop\<close> sets. The value \<open>-Infinity\<close>
  is no position: the sources write it only as the mark of the search, and no clock of
  the piece takes it (lemma \<open>position_never_NegInfinity\<close> below).
\<close>

theorem Track_dispatch_window:
  assumes t: "target tr = Some n" and s: "sorted (map time (events tr))"
    and np: "prev \<noteq> NegInfinity"
  shows "Track_dispatch tr prev cur rt =
           map (\<lambda>e. ProcessEvent n e rt)
             (filter (\<lambda>e. prev \<le> time e \<and> time e < cur) (events tr))"
proof -
  let ?evs = "events tr"
  let ?win = "\<lambda>e. prev \<le> time e \<and> time e < cur"
  show ?thesis
  proof (cases "?evs = []")
    case True
    with t show ?thesis by (simp add: Track_dispatch_def)
  next
    case ne: False
    obtain lo' hi' mid' where r: "search ?evs prev 0 (int (length ?evs) - 1) 0 = (lo', hi', mid')"
      by (metis prod_cases3)
    have c: "if lo' \<le> hi'
        then 0 \<le> mid' \<and> mid' < int (length ?evs) \<and> prev \<le> time (?evs ! nat mid') \<and>
             (mid' = 0 \<or> time (?evs ! nat (mid' - 1)) < prev)
        else (\<forall>e\<in>set ?evs. time e < prev)"
      using search_correct [OF s np, of 0 "int (length ?evs) - 1" 0] r by simp
    show ?thesis
    proof (cases "lo' \<le> hi'")
      case found: True
      with c have c': "0 \<le> mid'" "mid' < int (length ?evs)"
        "prev \<le> time (?evs ! nat mid')"
        "mid' = 0 \<or> time (?evs ! nat (mid' - 1)) < prev"
        by simp_all
      have "nat (mid' - 1) = nat mid' - 1" by simp
      with c' have m: "nat mid' < length ?evs" "prev \<le> time (?evs ! nat mid')"
        "nat mid' = 0 \<or> time (?evs ! (nat mid' - 1)) < prev"
        by auto
      have d: "filter (\<lambda>e. prev \<le> time e) ?evs = drop (nat mid') ?evs"
        by (rule sorted_filter_ge_drop [OF s m])
      have sd: "sorted (map time (drop (nat mid') ?evs))"
        using s by (simp add: sorted_wrt_drop drop_map [symmetric])
      have "Track_dispatch tr prev cur rt =
              dispatch_from n ?evs cur rt (nat mid')"
        using t ne r found by (simp add: Track_dispatch_def)
      also have "\<dots> = map (\<lambda>e. ProcessEvent n e rt)
                        (filter (\<lambda>e. time e < cur) (drop (nat mid') ?evs))"
        by (simp add: dispatch_from_takeWhile takeWhile_sorted_filter [OF sd])
      also have "filter (\<lambda>e. time e < cur) (drop (nat mid') ?evs) = filter ?win ?evs"
        by (simp add: d [symmetric] conj_commute)
      finally show ?thesis by simp
    next
      case nf: False
      with c have "\<forall>e\<in>set ?evs. time e < prev" by simp
      then have "filter ?win ?evs = []"
        by (auto simp: filter_empty_conv)
      moreover have "Track_dispatch tr prev cur rt = []"
        using t ne r nf by (simp add: Track_dispatch_def)
      ultimately show ?thesis by simp
    qed
  qed
qed

text \<open>The theorem at the tracks of the examples: events at the times 1, 2 and 5 with the
  windows from 0 to 3 and from 3 to 6, and events at the times 0 and 4 with the windows
  from 0 to 4 and from 4 to 4, and with the empty window at \<open>Infinity\<close>.\<close>

theorem Track_dispatch_window_witness:
  "Track_dispatch \<lparr>target = Some (0::nat),
       events = [NoteOnEvt (Finite 1) (Note_obj 60) 1, NoteOffEvt (Finite 2) (Note_obj 60),
                 AllNotesOffEvt (Finite 5)]\<rparr> (Finite 0) (Finite 3) (Finite 7) =
     [ProcessEvent 0 (NoteOnEvt (Finite 1) (Note_obj 60) 1) (Finite 7),
      ProcessEvent 0 (NoteOffEvt (Finite 2) (Note_obj 60)) (Finite 7)] \<and>
   Track_dispatch \<lparr>target = Some (0::nat),
       events = [NoteOnEvt (Finite 1) (Note_obj 60) 1, NoteOffEvt (Finite 2) (Note_obj 60),
                 AllNotesOffEvt (Finite 5)]\<rparr> (Finite 3) (Finite 6) (Finite 8) =
     [ProcessEvent 0 (AllNotesOffEvt (Finite 5)) (Finite 8)] \<and>
   Track_dispatch \<lparr>target = Some (0::nat),
       events = [NoteOnEvt (Finite 0) (Note_obj 60) 1, NoteOffEvt (Finite 4) (Note_obj 60)]\<rparr>
       (Finite 0) (Finite 4) (Finite 7) =
     [ProcessEvent 0 (NoteOnEvt (Finite 0) (Note_obj 60) 1) (Finite 7)] \<and>
   Track_dispatch \<lparr>target = Some (0::nat),
       events = [NoteOnEvt (Finite 0) (Note_obj 60) 1, NoteOffEvt (Finite 4) (Note_obj 60)]\<rparr>
       (Finite 4) (Finite 4) (Finite 8) = [] \<and>
   Track_dispatch \<lparr>target = Some (0::nat),
       events = [NoteOnEvt (Finite 0) (Note_obj 60) 1, NoteOffEvt (Finite 4) (Note_obj 60)]\<rparr>
       Infinity Infinity (Finite 9) = []"
  using
    Track_dispatch_window [of "\<lparr>target = Some (0::nat),
       events = [NoteOnEvt (Finite 1) (Note_obj 60) 1, NoteOffEvt (Finite 2) (Note_obj 60),
                 AllNotesOffEvt (Finite 5)]\<rparr>" 0 "Finite 0" "Finite 3" "Finite 7"]
    Track_dispatch_window [of "\<lparr>target = Some (0::nat),
       events = [NoteOnEvt (Finite 1) (Note_obj 60) 1, NoteOffEvt (Finite 2) (Note_obj 60),
                 AllNotesOffEvt (Finite 5)]\<rparr>" 0 "Finite 3" "Finite 6" "Finite 8"]
    Track_dispatch_window [of "\<lparr>target = Some (0::nat),
       events = [NoteOnEvt (Finite 0) (Note_obj 60) 1, NoteOffEvt (Finite 4) (Note_obj 60)]\<rparr>"
       0 "Finite 0" "Finite 4" "Finite 7"]
    Track_dispatch_window [of "\<lparr>target = Some (0::nat),
       events = [NoteOnEvt (Finite 0) (Note_obj 60) 1, NoteOffEvt (Finite 4) (Note_obj 60)]\<rparr>"
       0 "Finite 4" "Finite 4" "Finite 8"]
    Track_dispatch_window [of "\<lparr>target = Some (0::nat),
       events = [NoteOnEvt (Finite 0) (Note_obj 60) 1, NoteOffEvt (Finite 4) (Note_obj 60)]\<rparr>"
       0 "Infinity" "Infinity" "Finite 9"]
  by simp

lemma addEvent_events:
  "events (addEvent tr evt) =
     (if events tr = [] \<or> time (last (events tr)) \<le> time evt then events tr @ [evt]
      else sort_key time (events tr @ [evt]))"
proof (cases "events tr = []")
  case True
  then show ?thesis by (simp add: addEvent_def)
next
  case False
  then have "(events tr @ [evt]) ! (length (events tr @ [evt]) - 2) = last (events tr)"
    by (simp add: nth_append last_conv_nth)
  with False show ?thesis by (simp add: addEvent_def Let_def)
qed

lemma addEvent_sorted_step:
  assumes "sorted (map time (events tr))"
  shows "sorted (map time (events (addEvent tr evt)))"
proof (cases "events tr = [] \<or> time (last (events tr)) \<le> time evt")
  case True
  have "\<forall>e\<in>set (events tr). time e \<le> time evt"
  proof
    fix e assume e: "e \<in> set (events tr)"
    then have ne: "events tr \<noteq> []" by auto
    from e obtain i where i: "i < length (events tr)" "e = events tr ! i"
      by (auto simp: in_set_conv_nth)
    have "time (events tr ! i) \<le> time (events tr ! (length (events tr) - 1))"
      using sorted_nth_mono [OF assms, of i "length (events tr) - 1"] i by simp
    with True ne i show "time e \<le> time evt"
      by (simp add: last_conv_nth)
  qed
  with assms True show ?thesis
    by (simp add: addEvent_events sorted_append)
next
  case False
  then show ?thesis by (simp add: addEvent_events)
qed

lemma addEvent_fold_sorted:
  "sorted (map time (events tr)) \<Longrightarrow> sorted (map time (events (foldl addEvent tr evts)))"
  by (induction evts arbitrary: tr) (simp_all add: addEvent_sorted_step)

text \<open>
  Claim C6. \<open>Track.addEvent\<close> keeps the events sorted by time: a track whose events are
  sorted has them sorted again after the call, so every track built from an empty one by
  calls of \<open>addEvent\<close> is sorted. When the track was empty or the new event is not
  earlier than the last one, the event is appended; otherwise the events with the new one
  are sorted by time. The target is not touched.
\<close>

theorem addEvent_sorted:
  "(sorted (map time (events tr)) \<longrightarrow> sorted (map time (events (addEvent tr evt)))) \<and>
   sorted (map time (events (foldl addEvent (new_Track tgt) evts))) \<and>
   (events tr = [] \<or> time (last (events tr)) \<le> time evt \<longrightarrow>
      events (addEvent tr evt) = events tr @ [evt]) \<and>
   (events tr \<noteq> [] \<and> time evt < time (last (events tr)) \<longrightarrow>
      events (addEvent tr evt) = sort_key time (events tr @ [evt])) \<and>
   target (addEvent tr evt) = target tr"
proof (intro conjI impI)
  show "sorted (map time (events (foldl addEvent (new_Track tgt) evts)))"
    by (rule addEvent_fold_sorted) (simp add: new_Track_def)
  show "target (addEvent tr evt) = target tr"
    by (simp add: addEvent_def Let_def)
  show "sorted (map time (events (addEvent tr evt)))" if "sorted (map time (events tr))"
    using that by (rule addEvent_sorted_step)
  show "events (addEvent tr evt) = events tr @ [evt]"
    if "events tr = [] \<or> time (last (events tr)) \<le> time evt"
    using that by (simp add: addEvent_events)
  show "events (addEvent tr evt) = sort_key time (events tr @ [evt])"
    if "events tr \<noteq> [] \<and> time evt < time (last (events tr))"
    using that by (simp add: addEvent_events not_le [symmetric])
qed

text \<open>The theorem at a track with events at the times 1 and 5, for a new event at
  time 7 (appended) and one at time 2 (sorted in).\<close>

theorem addEvent_sorted_witness:
  "events (addEvent \<lparr>target = Some (0::nat),
       events = [AllNotesOffEvt (Finite 1), AllNotesOffEvt (Finite 5)]\<rparr> (AllNotesOffEvt (Finite 7))) =
     [AllNotesOffEvt (Finite 1), AllNotesOffEvt (Finite 5), AllNotesOffEvt (Finite 7)] \<and>
   events (addEvent \<lparr>target = Some (0::nat),
       events = [AllNotesOffEvt (Finite 1), AllNotesOffEvt (Finite 5)]\<rparr> (AllNotesOffEvt (Finite 2))) =
     [AllNotesOffEvt (Finite 1), AllNotesOffEvt (Finite 2), AllNotesOffEvt (Finite 5)] \<and>
   sorted (map time (events (addEvent \<lparr>target = Some (0::nat),
       events = [AllNotesOffEvt (Finite 1), AllNotesOffEvt (Finite 5)]\<rparr> (AllNotesOffEvt (Finite 2)))))"
  using
    addEvent_sorted [of "\<lparr>target = Some (0::nat),
       events = [AllNotesOffEvt (Finite 1), AllNotesOffEvt (Finite 5)]\<rparr>" "AllNotesOffEvt (Finite 7)"
       "None :: nat option" "[]"]
    addEvent_sorted [of "\<lparr>target = Some (0::nat),
       events = [AllNotesOffEvt (Finite 1), AllNotesOffEvt (Finite 5)]\<rparr>" "AllNotesOffEvt (Finite 2)"
       "None :: nat option" "[]"]
  by simp

section \<open>Properties of the piece and of the audio handler\<close>

text \<open>
  Claim C10. \<open>Piece.dispatch(cur, rt)\<close> changes the field \<open>prevTime\<close> of the piece, which
  becomes \<open>cur\<close>, and nothing else: the play time, the loop time, the tempo and the time
  signature, the network, the tracks and the events of every track are as before.
  \<open>Track.dispatch\<close> only reads the events and hands them to the target node.
\<close>

theorem Piece_dispatch_frame:
  "fst (Piece_dispatch p cur rt) = p\<lparr>prevTime := cur\<rparr> \<and>
   prevTime (fst (Piece_dispatch p cur rt)) = cur \<and>
   playTime (fst (Piece_dispatch p cur rt)) = playTime p \<and>
   loopTime (fst (Piece_dispatch p cur rt)) = loopTime p \<and>
   beatsPerMin (fst (Piece_dispatch p cur rt)) = beatsPerMin p \<and>
   beatsPerBar (fst (Piece_dispatch p cur rt)) = beatsPerBar p \<and>
   noteVal (fst (Piece_dispatch p cur rt)) = noteVal p \<and>
   synthNet (fst (Piece_dispatch p cur rt)) = synthNet p \<and>
   tracks (fst (Piece_dispatch p cur rt)) = tracks p \<and>
   map events (tracks (fst (Piece_dispatch p cur rt))) = map events (tracks p)"
  by (simp add: Piece_dispatch_def)

lemma js_add_mono: "0 \<le> q \<Longrightarrow> x \<le> js_add x q"
  by (cases x) simp_all

lemma quantum_clock:
  "quantum q (p, h) = ((p', h'), c) \<Longrightarrow>
     realTime h' = js_add (realTime h) q \<and> h_sampleRate h' = h_sampleRate h \<and>
     h_numChans h' = h_numChans h"
  by (auto simp: quantum_def Piece_dispatch_def Let_def split: if_splits)

lemma quanta_realTime_mono:
  "quanta B n i ph = (ph', c) \<Longrightarrow> 0 \<le> h_sampleRate (snd ph) \<Longrightarrow>
   realTime (snd ph) \<le> realTime (snd ph') \<and> h_sampleRate (snd ph') = h_sampleRate (snd ph)"
proof (induction B n i ph arbitrary: ph' c rule: quanta.induct)
  case (1 B n i ph)
  show ?case
  proof (cases "i < n \<and> 0 < B")
    case False
    with "1.prems" show ?thesis
      by (subst (asm) quanta.simps) auto
  next
    case True
    obtain p h where ph: "ph = (p, h)" by (cases ph)
    obtain p1 h1 c1 where q: "quantum (real B / h_sampleRate (snd ph)) ph = ((p1, h1), c1)"
      by (metis prod.exhaust)
    obtain ph2 c2 where r: "quanta B n (i + B) (p1, h1) = (ph2, c2)"
      by (metis prod.exhaust)
    from "1.prems"(1) True q r have e: "ph' = ph2"
      by (subst (asm) quanta.simps) simp
    from quantum_clock [OF q [unfolded ph]] have
      k: "realTime h1 = js_add (realTime h) (real B / h_sampleRate h)"
      "h_sampleRate h1 = h_sampleRate h" by (simp_all add: ph)
    have "0 \<le> real B / h_sampleRate h"
      using "1.prems"(2) by (simp add: ph)
    from js_add_mono [OF this] k have "realTime h \<le> realTime h1" by simp
    moreover from "1.IH" [OF True q [symmetric] r] k "1.prems"(2)
    have "realTime h1 \<le> realTime (snd ph2) \<and> h_sampleRate (snd ph2) = h_sampleRate h1"
      by (simp add: ph)
    ultimately show ?thesis using e k by (auto simp: ph)
  qed
qed

lemma genAudio_realTime_mono:
  assumes "genAudio B numCh numSmp (p, h) = Inr ((p', h'), c)" "0 \<le> h_sampleRate h"
  shows "realTime h \<le> realTime h'"
proof -
  let ?h1 = "if playTime p \<noteq> curTime h then h\<lparr>curTime := playTime p\<rparr> else h"
  from assms(1) have "quanta B numSmp 0 (p, ?h1) = ((p', h'), c)"
    by (auto simp: genAudio_def Let_def split: if_splits)
  from quanta_realTime_mono [OF this] assms(2) show ?thesis
    by (cases "playTime p \<noteq> curTime h") simp_all
qed

text \<open>One round of the loop written out, and the loop as a sequence of rounds.\<close>

lemma js_add_add: "js_add (js_add x a) b = js_add x (a + b)"
  by (cases x) simp_all

lemma js_add_0: "js_add x 0 = x"
  by (cases x) simp_all

lemma quantum_explicit:
  "quantum q (p, h) =
     (if playTime p \<le> loopTime p \<and> loopTime p < js_add (curTime h) q
      then ((p\<lparr>prevTime := Finite 0, playTime := Finite 0\<rparr>,
             h\<lparr>curTime := Finite 0, realTime := js_add (realTime h) q\<rparr>),
            dispatch_tracks (tracks p) (prevTime p) (curTime h) (realTime h) @
            [GenOutput (realTime h)] @
            dispatch_tracks (tracks p) (curTime h) (js_add (loopTime p) 0.01)
              (js_add (realTime h) q))
      else ((p\<lparr>prevTime := curTime h, playTime := js_add (curTime h) q\<rparr>,
             h\<lparr>curTime := js_add (curTime h) q, realTime := js_add (realTime h) q\<rparr>),
            dispatch_tracks (tracks p) (prevTime p) (curTime h) (realTime h) @
            [GenOutput (realTime h)]))"
  by (simp add: quantum_def Piece_dispatch_def Let_def)

lemma quanta_done: "numSamples \<le> smpIdx \<Longrightarrow> quanta B numSamples smpIdx ph = (ph, [])"
  by (subst quanta.simps) simp

lemma quanta_shift:
  "quanta B (n + B) (i + B) ph = quanta B n i ph"
proof (induction B n i ph rule: quanta.induct)
  case (1 B n i ph)
  show ?case
  proof (cases "i < n \<and> 0 < B")
    case False
    then show ?thesis
      by (subst quanta.simps, subst (2) quanta.simps) auto
  next
    case True
    obtain ph1 c1 where q: "quantum (real B / h_sampleRate (snd ph)) ph = (ph1, c1)"
      by (cases "quantum (real B / h_sampleRate (snd ph)) ph")
    from "1.IH" [OF True q [symmetric]]
    have ih: "quanta B (n + B) (i + B + B) ph1 = quanta B n (i + B) ph1" .
    show ?thesis
      using True q ih by (subst quanta.simps, subst (2) quanta.simps) simp
  qed
qed

lemma quanta_step:
  assumes "0 < B"
  shows "quanta B (B + m) 0 ph =
     (case quantum (real B / h_sampleRate (snd ph)) ph of
        (ph1, c1) \<Rightarrow> (case quanta B m 0 ph1 of (ph2, c2) \<Rightarrow> (ph2, c1 @ c2)))"
proof -
  have "quanta B (m + B) (0 + B) ph1 = quanta B m 0 ph1" for ph1 :: "'a Piece \<times> handler"
    by (rule quanta_shift)
  then have s: "quanta B (B + m) B ph1 = quanta B m 0 ph1" for ph1 :: "'a Piece \<times> handler"
    by (simp add: add.commute)
  show ?thesis
    using assms by (subst quanta.simps) (simp add: s)
qed

lemma quanta_one:
  assumes "0 < B"
  shows "quanta B B 0 ph = quantum (real B / h_sampleRate (snd ph)) ph"
  using quanta_step [OF assms, of 0 ph] by (simp add: quanta_done split: prod.splits)

text \<open>The handler for one buffer of the synthesizer, for none, and for one more.\<close>

lemma genAudio_one:
  assumes "0 < B" "nc = h_numChans h"
  shows "genAudio B nc B (p, h) =
     Inr (quantum (real B / h_sampleRate h) (p, h\<lparr>curTime := playTime p\<rparr>))"
  using assms by (simp add: genAudio_def Let_def quanta_one)

lemma genAudio_none:
  assumes "0 < B" "nc = h_numChans h"
  shows "genAudio B nc 0 (p, h) = Inr ((p, h\<lparr>curTime := playTime p\<rparr>), [])"
  using assms by (simp add: genAudio_def Let_def quanta_done)

lemma genAudio_compose:
  "genAudio B nc (B + m) (p, h) =
     (case genAudio B nc B (p, h) of
        Inl e \<Rightarrow> Inl e
      | Inr (ph1, c1) \<Rightarrow>
          (case genAudio B nc m ph1 of
             Inl e \<Rightarrow> Inl e
           | Inr (ph2, c2) \<Rightarrow> Inr (ph2, c1 @ c2)))"
proof (cases "0 < B \<and> nc = h_numChans h")
  case False
  then show ?thesis
    by (auto simp: genAudio_def Let_def)
next
  case True
  then have B: "0 < B" and nc: "nc = h_numChans h" by simp_all
  let ?h = "h\<lparr>curTime := playTime p\<rparr>"
  let ?q = "real B / h_sampleRate h"
  obtain p1 h1 c1 where q: "quantum ?q (p, ?h) = ((p1, h1), c1)"
    by (metis prod.exhaust)
  from q have k: "playTime p1 = curTime h1" "h_numChans h1 = h_numChans h"
    by (auto simp: quantum_explicit split: if_splits)
  have one: "genAudio B nc B (p, h) = Inr ((p1, h1), c1)"
    using genAudio_one [OF B nc, of p] q by simp
  have "genAudio B nc (B + m) (p, h) =
      (if m mod B \<noteq> 0 then Inl ContractViolation
       else Inr (quanta B (B + m) 0 (p, ?h)))"
    using B nc by (simp add: genAudio_def Let_def)
  also have "quanta B (B + m) 0 (p, ?h) =
      (case quanta B m 0 (p1, h1) of (ph2, c2) \<Rightarrow> (ph2, c1 @ c2))"
    using quanta_step [OF B, of m "(p, ?h)"] q by simp
  finally have l: "genAudio B nc (B + m) (p, h) =
      (if m mod B \<noteq> 0 then Inl ContractViolation
       else Inr (case quanta B m 0 (p1, h1) of (ph2, c2) \<Rightarrow> (ph2, c1 @ c2)))" .
  have r: "genAudio B nc m (p1, h1) =
      (if m mod B \<noteq> 0 then Inl ContractViolation else Inr (quanta B m 0 (p1, h1)))"
    using B nc k by (simp add: genAudio_def Let_def)
  show ?thesis
    by (simp add: l one r split: prod.splits)
qed

lemma genAudio_realTime:
  assumes "0 < B" "nc = h_numChans h"
  shows "\<exists>p' h' c. genAudio B nc (k * B) (p, h) = Inr ((p', h'), c) \<and>
     realTime h' = js_add (realTime h) (real k * (real B / h_sampleRate h)) \<and>
     h_sampleRate h' = h_sampleRate h \<and> h_numChans h' = h_numChans h"
  using assms
proof (induction k arbitrary: p h)
  case 0
  then show ?case by (simp add: genAudio_none js_add_0)
next
  case (Suc k)
  let ?h = "h\<lparr>curTime := playTime p\<rparr>"
  let ?q = "real B / h_sampleRate h"
  obtain p1 h1 c1 where q: "quantum ?q (p, ?h) = ((p1, h1), c1)"
    by (metis prod.exhaust)
  from q have k: "realTime h1 = js_add (realTime h) ?q" "h_numChans h1 = h_numChans h"
    "h_sampleRate h1 = h_sampleRate h"
    by (auto simp: quantum_explicit split: if_splits)
  have one: "genAudio B nc B (p, h) = Inr ((p1, h1), c1)"
    using genAudio_one [OF Suc.prems, of p] q by simp
  from Suc.IH [of h1 p1] Suc.prems k obtain p' h' c where
    r: "genAudio B nc (k * B) (p1, h1) = Inr ((p', h'), c)"
    and t: "realTime h' = js_add (realTime h1) (real k * (real B / h_sampleRate h1))"
    "h_sampleRate h' = h_sampleRate h1" "h_numChans h' = h_numChans h1"
    by auto
  have "genAudio B nc (Suc k * B) (p, h) = Inr ((p', h'), c1 @ c)"
    using genAudio_compose [of B nc "k * B" p h] one r by simp
  moreover have "realTime h' = js_add (realTime h) (real (Suc k) * ?q)"
  proof -
    have "?q + real k * ?q = real (Suc k) * ?q"
      by (simp add: distrib_right add_divide_distrib)
    with t k show ?thesis
      by (simp only: js_add_add)
  qed
  ultimately show ?case using t k by simp
qed


lemma quanta_position:
  "quanta B n i ph = (ph', c) \<Longrightarrow> curTime (snd ph) \<noteq> NegInfinity \<Longrightarrow>
   playTime (fst ph) \<noteq> NegInfinity \<Longrightarrow> prevTime (fst ph) \<noteq> NegInfinity \<Longrightarrow>
   curTime (snd ph') \<noteq> NegInfinity \<and> playTime (fst ph') \<noteq> NegInfinity \<and>
   prevTime (fst ph') \<noteq> NegInfinity"
proof (induction B n i ph arbitrary: ph' c rule: quanta.induct)
  case (1 B n i ph)
  show ?case
  proof (cases "i < n \<and> 0 < B")
    case False
    with "1.prems" show ?thesis
      by (subst (asm) quanta.simps) auto
  next
    case True
    obtain p h where ph: "ph = (p, h)" by (cases ph)
    obtain p1 h1 c1 where q: "quantum (real B / h_sampleRate (snd ph)) ph = ((p1, h1), c1)"
      by (metis prod.exhaust)
    obtain ph2 c2 where r: "quanta B n (i + B) (p1, h1) = (ph2, c2)"
      by (metis prod.exhaust)
    from "1.prems"(1) True q r have e: "ph' = ph2"
      by (subst (asm) quanta.simps) simp
    have nn: "x \<noteq> NegInfinity \<Longrightarrow> js_add x d \<noteq> NegInfinity" for x d
      by (cases x) simp_all
    from q "1.prems"(2) have k: "curTime h1 \<noteq> NegInfinity" "playTime p1 \<noteq> NegInfinity"
      "prevTime p1 \<noteq> NegInfinity"
      by (auto simp: ph quantum_explicit nn split: if_splits)
    from "1.IH" [OF True q [symmetric] r] k e show ?thesis by simp
  qed
qed

text \<open>No clock of the piece takes the value \<open>-Infinity\<close>: the constructor starts both
  at 0, \<open>stop\<close> writes \<open>Infinity\<close>, and the handler writes 0 or a sum with the play
  time; \<open>setTime\<close> writes the position it is given.\<close>

lemma position_never_NegInfinity:
  "playTime (new_Piece net) \<noteq> NegInfinity \<and> prevTime (new_Piece net) \<noteq> NegInfinity"
  "prevTime p \<noteq> NegInfinity \<Longrightarrow>
     playTime (fst (stop p)) \<noteq> NegInfinity \<and> prevTime (fst (stop p)) \<noteq> NegInfinity"
  "t \<noteq> NegInfinity \<Longrightarrow> prevTime p \<noteq> NegInfinity \<Longrightarrow>
     playTime (setTime p t) \<noteq> NegInfinity \<and> prevTime (setTime p t) \<noteq> NegInfinity"
  "genAudio B nc n (p, h) = Inr ((p', h'), c) \<Longrightarrow> playTime p \<noteq> NegInfinity \<Longrightarrow>
   prevTime p \<noteq> NegInfinity \<Longrightarrow>
     playTime p' \<noteq> NegInfinity \<and> prevTime p' \<noteq> NegInfinity"
proof -
  show "playTime (new_Piece net) \<noteq> NegInfinity \<and> prevTime (new_Piece net) \<noteq> NegInfinity"
    by (simp add: new_Piece_def)
  show "prevTime p \<noteq> NegInfinity \<Longrightarrow>
     playTime (fst (stop p)) \<noteq> NegInfinity \<and> prevTime (fst (stop p)) \<noteq> NegInfinity"
    by (simp add: stop_def)
  show "t \<noteq> NegInfinity \<Longrightarrow> prevTime p \<noteq> NegInfinity \<Longrightarrow>
     playTime (setTime p t) \<noteq> NegInfinity \<and> prevTime (setTime p t) \<noteq> NegInfinity"
    by (simp add: setTime_def)
  show "playTime p' \<noteq> NegInfinity \<and> prevTime p' \<noteq> NegInfinity"
    if g: "genAudio B nc n (p, h) = Inr ((p', h'), c)" and a: "playTime p \<noteq> NegInfinity"
      and b: "prevTime p \<noteq> NegInfinity"
  proof -
    from g have "quanta B n 0 (p, h\<lparr>curTime := playTime p\<rparr>) = ((p', h'), c)"
      by (auto simp: genAudio_def Let_def split: if_splits)
    from quanta_position [OF this] a b show ?thesis by simp
  qed
qed

text \<open>
  Claim C7. The handler \<open>genAudio\<close>, called for a buffer of the size of one buffer of
  the synthesizer, runs one round of its loop with the step
  \<open>SYNTH_BUF_SIZE / sampleRate\<close> (addition is exact here). The round dispatches the
  window from \<open>prevTime\<close> to the play time and generates the output. When the play time
  was at or before the loop time and the play time plus the step is past it, one more
  dispatch follows, up to the loop time plus 0.01 and with the real time as it stands
  before the clock is set back, that is with this round's step added; then the current
  time, \<open>prevTime\<close> and the play time are 0. In every other round the current time
  grows by the step and is written to the play time. The real time grows by the step in
  either case and is never set back. A call for a longer buffer does what a call for one
  synthesizer buffer followed by a call for the rest does; so a call for \<open>k\<close> buffers
  returns, with the real time grown by \<open>k\<close> steps, whatever wraps there were.
\<close>

theorem genAudio_loop_wrap:
  assumes "0 < B" and "nc = h_numChans h"
  shows
    "genAudio B nc B (p, h) = Inr
       (if playTime p \<le> loopTime p \<and>
           loopTime p < js_add (playTime p) (real B / h_sampleRate h)
        then ((p\<lparr>prevTime := Finite 0, playTime := Finite 0\<rparr>,
               h\<lparr>curTime := Finite 0,
                 realTime := js_add (realTime h) (real B / h_sampleRate h)\<rparr>),
              dispatch_tracks (tracks p) (prevTime p) (playTime p) (realTime h) @
              [GenOutput (realTime h)] @
              dispatch_tracks (tracks p) (playTime p) (js_add (loopTime p) 0.01)
                (js_add (realTime h) (real B / h_sampleRate h)))
        else ((p\<lparr>prevTime := playTime p,
                 playTime := js_add (playTime p) (real B / h_sampleRate h)\<rparr>,
               h\<lparr>curTime := js_add (playTime p) (real B / h_sampleRate h),
                 realTime := js_add (realTime h) (real B / h_sampleRate h)\<rparr>),
              dispatch_tracks (tracks p) (prevTime p) (playTime p) (realTime h) @
              [GenOutput (realTime h)])) \<and>
     genAudio B nc (B + m) (p, h) =
       (case genAudio B nc B (p, h) of
          Inl e \<Rightarrow> Inl e
        | Inr (ph1, c1) \<Rightarrow>
            (case genAudio B nc m ph1 of
               Inl e \<Rightarrow> Inl e
             | Inr (ph2, c2) \<Rightarrow> Inr (ph2, c1 @ c2))) \<and>
     (\<exists>p' h' c. genAudio B nc (k * B) (p, h) = Inr ((p', h'), c) \<and>
        realTime h' = js_add (realTime h) (real k * (real B / h_sampleRate h)) \<and>
        (0 \<le> h_sampleRate h \<longrightarrow> realTime h \<le> realTime h'))"
proof (intro conjI)
  show "genAudio B nc B (p, h) = Inr
       (if playTime p \<le> loopTime p \<and>
           loopTime p < js_add (playTime p) (real B / h_sampleRate h)
        then ((p\<lparr>prevTime := Finite 0, playTime := Finite 0\<rparr>,
               h\<lparr>curTime := Finite 0,
                 realTime := js_add (realTime h) (real B / h_sampleRate h)\<rparr>),
              dispatch_tracks (tracks p) (prevTime p) (playTime p) (realTime h) @
              [GenOutput (realTime h)] @
              dispatch_tracks (tracks p) (playTime p) (js_add (loopTime p) 0.01)
                (js_add (realTime h) (real B / h_sampleRate h)))
        else ((p\<lparr>prevTime := playTime p,
                 playTime := js_add (playTime p) (real B / h_sampleRate h)\<rparr>,
               h\<lparr>curTime := js_add (playTime p) (real B / h_sampleRate h),
                 realTime := js_add (realTime h) (real B / h_sampleRate h)\<rparr>),
              dispatch_tracks (tracks p) (prevTime p) (playTime p) (realTime h) @
              [GenOutput (realTime h)]))"
    by (simp add: genAudio_one [OF assms] quantum_explicit)
  show "genAudio B nc (B + m) (p, h) =
       (case genAudio B nc B (p, h) of
          Inl e \<Rightarrow> Inl e
        | Inr (ph1, c1) \<Rightarrow>
            (case genAudio B nc m ph1 of
               Inl e \<Rightarrow> Inl e
             | Inr (ph2, c2) \<Rightarrow> Inr (ph2, c1 @ c2)))"
    by (rule genAudio_compose)
  from genAudio_realTime [OF assms, of k p] obtain p' h' c where
    g: "genAudio B nc (k * B) (p, h) = Inr ((p', h'), c)"
    and r: "realTime h' = js_add (realTime h) (real k * (real B / h_sampleRate h))"
    by blast
  have "realTime h \<le> realTime h'" if "0 \<le> h_sampleRate h"
    using genAudio_realTime_mono [OF g that] .
  with g r show "\<exists>p' h' c. genAudio B nc (k * B) (p, h) = Inr ((p', h'), c) \<and>
        realTime h' = js_add (realTime h) (real k * (real B / h_sampleRate h)) \<and>
        (0 \<le> h_sampleRate h \<longrightarrow> realTime h \<le> realTime h')"
    by blast
qed

text \<open>The theorem at a handler that crosses the loop time 2, from 2 to 2.1 (one sample
  per buffer, ten samples per second): the event at time 2 is flushed with the real time
  7.1 and the clock is back at 0; the next round goes from 0 to 0.1 with the real time
  7.2.\<close>

theorem genAudio_loop_wrap_witness:
  "genAudio 1 2 1
     (\<lparr>synthNet = None,
       tracks = [\<lparr>target = Some (0::nat),
                  events = [AllNotesOffEvt (Finite 1), AllNotesOffEvt (Finite 2)]\<rparr>],
       playTime = Finite 2, loopTime = Finite 2, prevTime = Finite (19 / 10),
       beatsPerMin = 140, beatsPerBar = 4, noteVal = 4\<rparr>,
      \<lparr>h_sampleRate = 10, h_numChans = 2, curTime = Finite 2, realTime = Finite 7\<rparr>) =
   Inr ((\<lparr>synthNet = None,
       tracks = [\<lparr>target = Some (0::nat),
                  events = [AllNotesOffEvt (Finite 1), AllNotesOffEvt (Finite 2)]\<rparr>],
       playTime = Finite 0, loopTime = Finite 2, prevTime = Finite 0,
       beatsPerMin = 140, beatsPerBar = 4, noteVal = 4\<rparr>,
      \<lparr>h_sampleRate = 10, h_numChans = 2, curTime = Finite 0, realTime = Finite (71 / 10)\<rparr>),
    [GenOutput (Finite 7), ProcessEvent 0 (AllNotesOffEvt (Finite 2)) (Finite (71 / 10))]) \<and>
   genAudio 1 2 2
     (\<lparr>synthNet = None,
       tracks = [\<lparr>target = Some (0::nat),
                  events = [AllNotesOffEvt (Finite 1), AllNotesOffEvt (Finite 2)]\<rparr>],
       playTime = Finite 2, loopTime = Finite 2, prevTime = Finite (19 / 10),
       beatsPerMin = 140, beatsPerBar = 4, noteVal = 4\<rparr>,
      \<lparr>h_sampleRate = 10, h_numChans = 2, curTime = Finite 2, realTime = Finite 7\<rparr>) =
   Inr ((\<lparr>synthNet = None,
       tracks = [\<lparr>target = Some (0::nat),
                  events = [AllNotesOffEvt (Finite 1), AllNotesOffEvt (Finite 2)]\<rparr>],
       playTime = Finite (1 / 10), loopTime = Finite 2, prevTime = Finite 0,
       beatsPerMin = 140, beatsPerBar = 4, noteVal = 4\<rparr>,
      \<lparr>h_sampleRate = 10, h_numChans = 2, curTime = Finite (1 / 10),
        realTime = Finite (72 / 10)\<rparr>),
    [GenOutput (Finite 7), ProcessEvent 0 (AllNotesOffEvt (Finite 2)) (Finite (71 / 10)),
     GenOutput (Finite (71 / 10))]) \<and>
   (\<exists>p' h' c.
      genAudio 1 2 2
        (\<lparr>synthNet = None,
          tracks = [\<lparr>target = Some (0::nat),
                     events = [AllNotesOffEvt (Finite 1), AllNotesOffEvt (Finite 2)]\<rparr>],
          playTime = Finite 2, loopTime = Finite 2, prevTime = Finite (19 / 10),
          beatsPerMin = 140, beatsPerBar = 4, noteVal = 4\<rparr>,
         \<lparr>h_sampleRate = 10, h_numChans = 2, curTime = Finite 2, realTime = Finite 7\<rparr>) =
      Inr ((p', h'), c) \<and>
      realTime h' = Finite (72 / 10) \<and> Finite 7 \<le> realTime h')"
proof -
  let ?p = "\<lparr>synthNet = None,
       tracks = [\<lparr>target = Some (0::nat),
                  events = [AllNotesOffEvt (Finite 1), AllNotesOffEvt (Finite 2)]\<rparr>],
       playTime = Finite 2, loopTime = Finite 2, prevTime = Finite (19 / 10),
       beatsPerMin = 140, beatsPerBar = 4, noteVal = 4\<rparr>"
  let ?h = "\<lparr>h_sampleRate = 10, h_numChans = 2, curTime = Finite 2, realTime = Finite 7\<rparr>"
  let ?p1 = "\<lparr>synthNet = None,
       tracks = [\<lparr>target = Some (0::nat),
                  events = [AllNotesOffEvt (Finite 1), AllNotesOffEvt (Finite 2)]\<rparr>],
       playTime = Finite 0, loopTime = Finite 2, prevTime = Finite 0,
       beatsPerMin = 140, beatsPerBar = 4, noteVal = 4\<rparr>"
  let ?h1 = "\<lparr>h_sampleRate = 10, h_numChans = 2, curTime = Finite 0,
       realTime = Finite (71 / 10)\<rparr>"
  have d: "dispatch_tracks (tracks ?p) (Finite (19 / 10)) (Finite 2) (Finite 7) = []"
    "dispatch_tracks (tracks ?p) (Finite 2) (Finite (201 / 100)) (Finite (71 / 10)) =
       [ProcessEvent 0 (AllNotesOffEvt (Finite 2)) (Finite (71 / 10))]"
    "dispatch_tracks (tracks ?p1) (Finite 0) (Finite 0) (Finite (71 / 10)) = []"
    by code_simp+
  from genAudio_loop_wrap [of 1 2 ?h ?p 1 0, THEN conjunct1] d
  have one: "genAudio 1 2 1 (?p, ?h) =
      Inr ((?p1, ?h1),
        [GenOutput (Finite 7), ProcessEvent 0 (AllNotesOffEvt (Finite 2)) (Finite (71 / 10))])"
    by simp
  from genAudio_loop_wrap [of 1 2 ?h1 ?p1 0 0, THEN conjunct1] d
  have two: "genAudio 1 2 1 (?p1, ?h1) =
      Inr ((?p1\<lparr>playTime := Finite (1 / 10)\<rparr>,
            ?h1\<lparr>curTime := Finite (1 / 10), realTime := Finite (72 / 10)\<rparr>),
        [GenOutput (Finite (71 / 10))])"
    by simp
  from genAudio_loop_wrap [of 1 2 ?h ?p 1 0, THEN conjunct2, THEN conjunct1] one two
  have "genAudio 1 2 2 (?p, ?h) =
      Inr ((?p1\<lparr>playTime := Finite (1 / 10)\<rparr>,
            ?h1\<lparr>curTime := Finite (1 / 10), realTime := Finite (72 / 10)\<rparr>),
        [GenOutput (Finite 7), ProcessEvent 0 (AllNotesOffEvt (Finite 2)) (Finite (71 / 10)),
         GenOutput (Finite (71 / 10))])"
    by (simp add: numeral_2_eq_2)
  moreover from genAudio_loop_wrap [of 1 2 ?h ?p 0 2, THEN conjunct2, THEN conjunct2]
  have "\<exists>p' h' c. genAudio 1 2 2 (?p, ?h) = Inr ((p', h'), c) \<and>
      realTime h' = Finite (72 / 10) \<and> Finite 7 \<le> realTime h'"
    by simp
  ultimately show ?thesis using one by simp
qed

text \<open>After \<open>stop\<close> the handler first follows the play time to \<open>Infinity\<close>; its next
  round then dispatches the window from the old \<open>prevTime\<close> up to \<open>Infinity\<close>.\<close>

lemma stop_first_quantum:
  assumes "playTime p = Infinity" "curTime h = Infinity" "loopTime p \<noteq> Infinity"
  shows "quantum q (p, h) =
     ((p\<lparr>prevTime := Infinity\<rparr>, h\<lparr>realTime := js_add (realTime h) q\<rparr>),
      dispatch_tracks (tracks p) (prevTime p) Infinity (realTime h) @ [GenOutput (realTime h)])"
proof -
  have "\<not> Infinity \<le> loopTime p"
    using assms(3) by (cases "loopTime p") simp_all
  with assms show ?thesis
    by (simp add: quantum_def Piece_dispatch_def Let_def)
qed

text \<open>From then on \<open>prevTime\<close> is \<open>Infinity\<close> as well, and the rounds deliver nothing.\<close>

lemma dispatch_tracks_empty_window:
  "cur \<le> prev \<Longrightarrow> dispatch_tracks trs prev cur rt = []"
  by (induction trs) (simp_all add: Track_dispatch_empty_window)

lemma stop_later_quantum:
  assumes "playTime p = Infinity" "curTime h = Infinity" "prevTime p = Infinity"
    "loopTime p \<noteq> Infinity"
  shows "quantum q (p, h) = ((p, h\<lparr>realTime := js_add (realTime h) q\<rparr>), [GenOutput (realTime h)])"
proof -
  have "\<not> Infinity \<le> loopTime p"
    using assms(4) by (cases "loopTime p") simp_all
  moreover have "p\<lparr>prevTime := Infinity, playTime := Infinity\<rparr> = p"
    using assms(1,3) by simp
  moreover have "h\<lparr>curTime := Infinity, realTime := js_add (realTime h) q\<rparr> =
      h\<lparr>realTime := js_add (realTime h) q\<rparr>"
    using assms(2) by simp
  ultimately show ?thesis
    using assms by (simp add: quantum_def Piece_dispatch_def Let_def dispatch_tracks_empty_window)
qed

text \<open>
  Claim C2, evaluated. A piece as the constructor makes it, with a network of the nodes 0
  and 1, loop time 10 and one track that holds a note-on event at time 5 for node 1.
  The handler is made, \<open>stop\<close> is called and the handler runs for one buffer. \<open>stop\<close>
  sends the all-notes-off event to both nodes and sets the play time to \<open>Infinity\<close>; the
  handler then delivers the event at time 5 to node 1: \<open>prevTime\<close> was still 0, so the
  window of its first round is everything from 0 on.
\<close>

theorem stop_then_genAudio:
  "makeHandler
     ((new_Piece (Some \<lparr>nodes = [0::nat, 1], sampleRate = 44100, outNode_numChans = 2\<rparr>))
        \<lparr>tracks := [\<lparr>target = Some 1, events = [NoteOnEvt (Finite 5) (Note_obj 60) 1]\<rparr>],
         loopTime := Finite 10\<rparr>) =
     Some \<lparr>h_sampleRate = 44100, h_numChans = 2, curTime = Finite 0, realTime = Finite 0\<rparr> \<and>
   stop
     ((new_Piece (Some \<lparr>nodes = [0::nat, 1], sampleRate = 44100, outNode_numChans = 2\<rparr>))
        \<lparr>tracks := [\<lparr>target = Some 1, events = [NoteOnEvt (Finite 5) (Note_obj 60) 1]\<rparr>],
         loopTime := Finite 10\<rparr>) =
     ((new_Piece (Some \<lparr>nodes = [0::nat, 1], sampleRate = 44100, outNode_numChans = 2\<rparr>))
        \<lparr>tracks := [\<lparr>target = Some 1, events = [NoteOnEvt (Finite 5) (Note_obj 60) 1]\<rparr>],
         loopTime := Finite 10, playTime := Infinity\<rparr>,
      [ProcessAllNotesOff 0, ProcessAllNotesOff 1]) \<and>
   genAudio 512 2 512
     ((new_Piece (Some \<lparr>nodes = [0::nat, 1], sampleRate = 44100, outNode_numChans = 2\<rparr>))
        \<lparr>tracks := [\<lparr>target = Some 1, events = [NoteOnEvt (Finite 5) (Note_obj 60) 1]\<rparr>],
         loopTime := Finite 10, playTime := Infinity\<rparr>,
      \<lparr>h_sampleRate = 44100, h_numChans = 2, curTime = Finite 0, realTime = Finite 0\<rparr>) =
     Inr (((new_Piece (Some \<lparr>nodes = [0::nat, 1], sampleRate = 44100, outNode_numChans = 2\<rparr>))
            \<lparr>tracks := [\<lparr>target = Some 1, events = [NoteOnEvt (Finite 5) (Note_obj 60) 1]\<rparr>],
             loopTime := Finite 10, playTime := Infinity, prevTime := Infinity\<rparr>,
           \<lparr>h_sampleRate = 44100, h_numChans = 2, curTime = Infinity,
             realTime = Finite (512 / 44100)\<rparr>),
          [ProcessEvent 1 (NoteOnEvt (Finite 5) (Note_obj 60) 1) (Finite 0), GenOutput (Finite 0)])"
  by code_simp

section \<open>Properties of the notes and scales\<close>

text \<open>
  Claim C3, evaluated at the pitch number 0. The note of number 0 has the name \<open>C-1\<close>,
  and the constructor refuses that name: the pattern of \<open>Note.nameToNo\<close> finds no letter
  followed by a digit in it.
\<close>

theorem name_roundtrip_pitch_0:
  "new_Note (Num 0) Map.empty = Inr (Note_obj 0, [0 \<mapsto> Note_obj 0]) \<and>
   getName (Note_obj 0) = ''C-1'' \<and>
   new_Note (Str ''C-1'') [0 \<mapsto> Note_obj 0] = Inl InvalidNoteName"
proof -
  have "getName (Note_obj 0) = ''C-1''"
    by code_simp
  moreover have "new_Note (Str ''C-1'') [0 \<mapsto> Note_obj 0] = Inl InvalidNoteName"
    by (simp add: new_Note_def nameToNo_def is_note_letter_def is_digit_def)
  ultimately show ?thesis
    by (simp add: new_Note_def Let_def)
qed

text \<open>From the pitch number 12 on, where the octave is not negative, the name leads back
  to the number.\<close>

lemma roundtrip_all: "\<forall>n\<in>set [12..131]. nameToNo (getName (Note_obj n)) = Inr n"
  by code_simp

lemma name_roundtrip_from_12:
  assumes "12 \<le> n" "n < 128"
  shows "nameToNo (getName (Note_obj n)) = Inr n"
proof -
  from assms have "n \<in> {12..131}" by simp
  then have "n \<in> set [12..131]" by (simp only: set_upto)
  with roundtrip_all show ?thesis by blast
qed

text \<open>
  Claim C4, evaluated. The name \<open>A9\<close> parses to the number 129, and the constructor makes
  the note: the assertion on the parsed number, written with \<open>||\<close>, holds for every number.
  A number given directly is not checked against the range either.
\<close>

theorem note_out_of_range_accepted:
  "new_Note (Str ''A9'') Map.empty = Inr (Note_obj 129, [129 \<mapsto> Note_obj 129]) \<and>
   new_Note (Num 128) Map.empty = Inr (Note_obj 128, [128 \<mapsto> Note_obj 128]) \<and>
   new_Note (Num (- 1)) Map.empty = Inr (Note_obj (- 1), [- 1 \<mapsto> Note_obj (- 1)])"
  by (simp add: new_Note_def nameToNo_def is_note_letter_def is_digit_def NOTE_NAME_PC_def
      parseInt_def NOTES_PER_OCTAVE_def NUM_NOTES_def Let_def)

lemma table_ok_empty: "table_ok Map.empty"
  by (simp add: table_ok_def)

lemma new_Note_Num:
  assumes "table_ok t"
  shows "\<exists>t'. new_Note (Num n) t = Inr (Note_obj n, t') \<and> table_ok t'"
proof (cases "t n")
  case None
  with assms show ?thesis
    by (auto simp: new_Note_def Let_def table_ok_def)
next
  case (Some nt)
  with assms have "noteNo nt = n"
    by (simp add: table_ok_def)
  then have "nt = Note_obj n"
    by (cases nt) simp
  with Some assms show ?thesis
    by (simp add: new_Note_def)
qed

text \<open>The constructor returns the note that the table holds afterwards under its
  number, and makes a note only when the table had none.\<close>

lemma new_Note_interned:
  assumes "new_Note val t = Inr (nt, t')"
  shows "\<exists>n. t' n = Some nt \<and> (t n = None \<longrightarrow> nt = Note_obj n \<and> t' = t(n \<mapsto> nt)) \<and>
           (t n \<noteq> None \<longrightarrow> t' = t) \<and> new_Note (Num n) t' = Inr (nt, t')"
proof -
  from assms obtain n where n: "(case val of Str name \<Rightarrow> nameToNo name | Num n \<Rightarrow> Inr n
      | Undefined \<Rightarrow> Inl InvalidNoteNumber) = Inr n"
    by (auto simp: new_Note_def split: sum.splits)
  show ?thesis
  proof (cases "t n")
    case None
    with assms n have "nt = Note_obj n" "t' = t(n \<mapsto> nt)"
      by (auto simp: new_Note_def Let_def)
    with None show ?thesis
      by (intro exI [of _ n]) (simp add: new_Note_def)
  next
    case (Some a)
    with assms n have "nt = a" "t' = t"
      by (auto simp: new_Note_def Let_def)
    with Some show ?thesis
      by (intro exI [of _ n]) (simp add: new_Note_def)
  qed
qed

lemma offset_ok:
  assumes "table_ok t" "0 \<le> noteNo nt + k" "noteNo nt + k < 128"
  shows "\<exists>t'. offset nt k t = Inr (Note_obj (noteNo nt + k), t') \<and> table_ok t'"
  using new_Note_Num [OF assms(1), of "noteNo nt + k"] assms(2,3)
  by (simp add: offset_def Let_def NUM_NOTES_def)

lemma offset_fail:
  "\<not> (0 \<le> noteNo nt + k \<and> noteNo nt + k < 128) \<Longrightarrow> offset nt k t = Inl InvalidNoteNumber"
  by (auto simp: offset_def Let_def NUM_NOTES_def)

lemma shift_ok:
  assumes "table_ok t" "0 \<le> noteNo nt + 12 * k" "noteNo nt + 12 * k < 128"
  shows "\<exists>t'. shift nt k t = Inr (Note_obj (noteNo nt + 12 * k), t') \<and> table_ok t'"
  using offset_ok [OF assms(1), of nt "k * 12"] assms(2,3)
  by (simp add: shift_def NOTES_PER_OCTAVE_def mult.commute)

lemma shift_fail:
  "\<not> (0 \<le> noteNo nt + 12 * k \<and> noteNo nt + 12 * k < 128) \<Longrightarrow>
   shift nt k t = Inl InvalidNoteNumber"
  using offset_fail [of nt "k * 12" t]
  by (simp add: shift_def NOTES_PER_OCTAVE_def mult.commute)

lemma is_digit_not_hash: "is_digit d \<Longrightarrow> d \<noteq> CHR ''#''"
  by (auto simp: is_digit_def)

lemma NOTE_NAME_PC_cases:
  "NOTE_NAME_PC np = Some pc \<Longrightarrow>
     (np, pc) \<in> set [(''C'', 0), (''C#'', 1), (''D'', 2), (''D#'', 3), (''E'', 4), (''F'', 5),
      (''F#'', 6), (''G'', 7), (''G#'', 8), (''A'', 9), (''A#'', 10), (''B'', 11)]"
  unfolding NOTE_NAME_PC_def by (rule map_of_SomeD)

lemma match_at_complete:
  assumes "NOTE_NAME_PC np = Some pc" "is_digit d"
  shows "match_at (np @ d # rest) = Some (np, [d])"
  using NOTE_NAME_PC_cases [OF assms(1)] assms(2) is_digit_not_hash [OF assms(2)]
  by (auto simp: is_note_letter_def)

lemma name_match_complete:
  assumes "NOTE_NAME_PC np = Some pc" "is_digit d"
  shows "name_match (np @ d # rest) = Some (np, [d])"
proof -
  from NOTE_NAME_PC_cases [OF assms(1)] obtain c r where "np = c # r" by auto
  with match_at_complete [OF assms, of rest] show ?thesis by simp
qed

lemma match_at_sound:
  "match_at s = Some (np, nd) \<Longrightarrow>
     \<exists>c d rest. s = np @ d # rest \<and> nd = [d] \<and> is_digit d \<and> is_note_letter c \<and>
       (np = [c] \<or> np = [c, CHR ''#''])"
  by (cases s rule: match_at.cases) (auto split: if_splits list.splits)

lemma name_match_sound:
  "name_match s = Some (np, nd) \<Longrightarrow>
     \<exists>pre c d rest. s = pre @ np @ d # rest \<and> nd = [d] \<and> is_digit d \<and> is_note_letter c \<and>
       (np = [c] \<or> np = [c, CHR ''#''])"
proof (induction s)
  case Nil
  then show ?case by simp
next
  case (Cons a s)
  show ?case
  proof (cases "match_at (a # s)")
    case None
    with Cons.prems have "name_match s = Some (np, nd)" by simp
    from Cons.IH [OF this] obtain pre c d rest where
      "s = pre @ np @ d # rest" "nd = [d]" "is_digit d" "is_note_letter c"
      "np = [c] \<or> np = [c, CHR ''#'']" by blast
    then have "a # s = (a # pre) @ np @ d # rest" by simp
    with \<open>nd = [d]\<close> \<open>is_digit d\<close> \<open>is_note_letter c\<close> \<open>np = [c] \<or> np = [c, CHR ''#'']\<close>
    show ?thesis by blast
  next
    case (Some m)
    with Cons.prems have "match_at (a # s) = Some (np, nd)" by simp
    from match_at_sound [OF this] obtain c d rest where
      "a # s = np @ d # rest" "nd = [d]" "is_digit d" "is_note_letter c"
      "np = [c] \<or> np = [c, CHR ''#'']" by blast
    then have "a # s = [] @ np @ d # rest" by simp
    with \<open>nd = [d]\<close> \<open>is_digit d\<close> \<open>is_note_letter c\<close> \<open>np = [c] \<or> np = [c, CHR ''#'']\<close>
    show ?thesis by blast
  qed
qed

lemma parseInt_digit: "is_digit d \<Longrightarrow> 0 \<le> parseInt [d] \<and> parseInt [d] \<le> 9"
  by (auto simp: is_digit_def parseInt_def)

lemma nameToNo_unfold:
  "nameToNo name =
     (case name_match name of
        None \<Rightarrow> Inl InvalidNoteName
      | Some (np, nd) \<Rightarrow>
          (case NOTE_NAME_PC np of
             None \<Rightarrow> Inl InvalidNoteName
           | Some pc \<Rightarrow> Inr ((parseInt nd + 1) * 12 + pc)))"
  by (auto simp: nameToNo_def Let_def NOTES_PER_OCTAVE_def NUM_NOTES_def
      split: option.splits prod.splits)

lemma nameToNo_range:
  assumes "nameToNo name = Inr n"
  shows "12 \<le> n \<and> n < 132"
proof -
  from assms obtain np nd pc where m: "name_match name = Some (np, nd)"
    and pc: "NOTE_NAME_PC np = Some pc" and n: "n = (parseInt nd + 1) * 12 + pc"
    by (auto simp: nameToNo_unfold split: option.splits prod.splits)
  from name_match_sound [OF m] obtain d where "nd = [d]" "is_digit d" by blast
  moreover have "0 \<le> pc \<and> pc \<le> 11"
    using NOTE_NAME_PC_cases [OF pc] by auto
  ultimately show ?thesis
    using parseInt_digit [of d] n by auto
qed

lemma match_at_letter:
  assumes "is_note_letter c" "is_digit d" "np = [c] \<or> np = [c, CHR ''#'']"
  shows "match_at (np @ d # rest) = Some (np, [d])"
  using assms is_digit_not_hash [OF assms(2)] by auto

lemma name_match_letter:
  assumes "is_note_letter c" "is_digit d" "np = [c] \<or> np = [c, CHR ''#'']"
  shows "name_match (np @ d # rest) = Some (np, [d])"
proof -
  from assms(3) obtain r where "np = c # r" by auto
  with match_at_letter [OF assms, of rest] show ?thesis by simp
qed

text \<open>A place of the pattern that begins before a letter ends before it: the letter is
  neither a digit nor a \<open>#\<close>. So the search passes a prefix without a place and reads
  the name at the letter after it.\<close>

lemma letter_not_digit: "is_note_letter c \<Longrightarrow> \<not> is_digit c"
  by (auto simp: is_note_letter_def is_digit_def)

lemma letter_not_hash: "is_note_letter c \<Longrightarrow> c \<noteq> CHR ''#''"
  by (auto simp: is_note_letter_def)

lemma match_at_in_prefix:
  assumes m: "match_at (a # pre @ c # s) \<noteq> None" and c: "is_note_letter c"
  shows "\<exists>d' b. is_note_letter a \<and> is_digit d' \<and>
           (a # pre = a # d' # b \<or> a # pre = a # CHR ''#'' # d' # b)"
proof -
  from m obtain np nd where "match_at (a # pre @ c # s) = Some (np, nd)" by auto
  from match_at_sound [OF this] obtain c' d' rest where
    e: "a # pre @ c # s = np @ d' # rest" and d: "is_digit d'" and l: "is_note_letter c'"
    and np: "np = [c'] \<or> np = [c', CHR ''#'']" by blast
  from np show ?thesis
  proof
    assume "np = [c']"
    with e have a: "a = c'" and r: "pre @ c # s = d' # rest" by simp_all
    from r d c letter_not_digit obtain b where "pre = d' # b"
      by (cases pre) auto
    with a l d show ?thesis by auto
  next
    assume "np = [c', CHR ''#'']"
    with e have a: "a = c'" and r: "pre @ c # s = CHR ''#'' # d' # rest" by simp_all
    from r c letter_not_hash obtain b where b: "pre = CHR ''#'' # b"
      by (cases pre) auto
    with r have "b @ c # s = d' # rest" by simp
    with d c letter_not_digit obtain b' where "b = d' # b'"
      by (cases b) auto
    with a l d b show ?thesis by auto
  qed
qed

lemma name_match_skip:
  assumes "\<not> (\<exists>a c' d' b. is_note_letter c' \<and> is_digit d' \<and>
                (pre = a @ c' # d' # b \<or> pre = a @ c' # CHR ''#'' # d' # b))"
    and "is_note_letter c"
  shows "name_match (pre @ c # s) = name_match (c # s)"
  using assms(1)
proof (induction pre)
  case Nil
  then show ?case by simp
next
  case (Cons x pre)
  have no: "\<not> (\<exists>a c' d' b. is_note_letter c' \<and> is_digit d' \<and>
                (pre = a @ c' # d' # b \<or> pre = a @ c' # CHR ''#'' # d' # b))"
  proof
    assume "\<exists>a c' d' b. is_note_letter c' \<and> is_digit d' \<and>
                (pre = a @ c' # d' # b \<or> pre = a @ c' # CHR ''#'' # d' # b)"
    then obtain a c' d' b where "is_note_letter c'" "is_digit d'"
      "pre = a @ c' # d' # b \<or> pre = a @ c' # CHR ''#'' # d' # b" by blast
    then have "is_note_letter c' \<and> is_digit d' \<and>
       (x # pre = (x # a) @ c' # d' # b \<or> x # pre = (x # a) @ c' # CHR ''#'' # d' # b)"
      by auto
    with Cons.prems show False by blast
  qed
  have "match_at (x # pre @ c # s) = None"
  proof (rule ccontr)
    assume "match_at (x # pre @ c # s) \<noteq> None"
    from match_at_in_prefix [OF this assms(2)] obtain d' b where
      "is_note_letter x" "is_digit d'"
      "x # pre = x # d' # b \<or> x # pre = x # CHR ''#'' # d' # b" by blast
    then have "is_note_letter x \<and> is_digit d' \<and>
       (x # pre = [] @ x # d' # b \<or> x # pre = [] @ x # CHR ''#'' # d' # b)"
      by simp
    with Cons.prems show False by blast
  qed
  with Cons.IH [OF no] show ?case by simp
qed

lemma name_match_leftmost:
  assumes "\<not> (\<exists>a c' d' b. is_note_letter c' \<and> is_digit d' \<and>
                (pre = a @ c' # d' # b \<or> pre = a @ c' # CHR ''#'' # d' # b))"
    and "is_note_letter c" "is_digit d" "np = [c] \<or> np = [c, CHR ''#'']"
  shows "name_match (pre @ np @ d # rest) = Some (np, [d])"
proof -
  from assms(4) obtain r where np: "np = c # r" by auto
  have "name_match (pre @ c # (r @ d # rest)) = name_match (c # (r @ d # rest))"
    by (rule name_match_skip [OF assms(1,2)])
  with np name_match_letter [OF assms(2,3,4), of rest] show ?thesis by simp
qed

lemma NOTE_NAME_PC_letter:
  assumes "NOTE_NAME_PC np = Some pc"
  shows "\<exists>c. is_note_letter c \<and> (np = [c] \<or> np = [c, CHR ''#''])"
  using NOTE_NAME_PC_cases [OF assms] by (auto simp: is_note_letter_def)

text \<open>
  Claim C5, as the code has it. \<open>Note.nameToNo\<close> looks for the leftmost place in the name
  where a letter A to G of either case, an optional \<open>#\<close> and one digit follow each other;
  the pattern is not tied to the ends of the name and reads one digit. What comes before
  that place and what comes after it play no part: when the letter, with its \<open>#\<close>, is
  one of the twelve pitch-class names of the table, the name is accepted with the pitch
  number (digit + 1) * 12 + pitch class; when it is no pitch-class name of the table, the
  name fails with \<open>InvalidNoteName\<close>. An accepted name holds a pitch-class name and a
  digit that give its number, and a name in which no letter is followed by a digit,
  directly or after a \<open>#\<close>, fails with \<open>InvalidNoteName\<close>. Two things are left open
  here: a minus sign (before the place that is read, in the first two statements, and
  anywhere in the name, in the last two), and numbers from 128 on.
\<close>

theorem nameToNo_grammar:
  "(\<not> (\<exists>a c' d' b. is_note_letter c' \<and> is_digit d' \<and>
          (pre = a @ c' # d' # b \<or> pre = a @ c' # CHR ''#'' # d' # b)) \<and>
    CHR ''-'' \<notin> set pre \<and>
    NOTE_NAME_PC np = Some pc \<and> is_digit d \<and> (parseInt [d] + 1) * 12 + pc < 128 \<longrightarrow>
      nameToNo (pre @ np @ d # rest) = Inr ((parseInt [d] + 1) * 12 + pc)) \<and>
   (\<not> (\<exists>a c' d' b. is_note_letter c' \<and> is_digit d' \<and>
          (pre = a @ c' # d' # b \<or> pre = a @ c' # CHR ''#'' # d' # b)) \<and>
    CHR ''-'' \<notin> set pre \<and>
    is_note_letter c \<and> is_digit d \<and> (np = [c] \<or> np = [c, CHR ''#'']) \<and>
    NOTE_NAME_PC np = None \<longrightarrow>
      nameToNo (pre @ np @ d # rest) = Inl InvalidNoteName) \<and>
   (CHR ''-'' \<notin> set name \<and> nameToNo name = Inr n \<longrightarrow>
      (\<exists>pre' np' d' rest' pc'. name = pre' @ np' @ d' # rest' \<and> NOTE_NAME_PC np' = Some pc' \<and>
         is_digit d' \<and> n = (parseInt [d'] + 1) * 12 + pc')) \<and>
   (CHR ''-'' \<notin> set name \<and>
    \<not> (\<exists>a c' d' b. is_note_letter c' \<and> is_digit d' \<and>
          (name = a @ c' # d' # b \<or> name = a @ c' # CHR ''#'' # d' # b)) \<longrightarrow>
      nameToNo name = Inl InvalidNoteName)"
proof (intro conjI impI)
  show "nameToNo (pre @ np @ d # rest) = Inr ((parseInt [d] + 1) * 12 + pc)"
    if h: "\<not> (\<exists>a c' d' b. is_note_letter c' \<and> is_digit d' \<and>
          (pre = a @ c' # d' # b \<or> pre = a @ c' # CHR ''#'' # d' # b)) \<and>
       CHR ''-'' \<notin> set pre \<and>
       NOTE_NAME_PC np = Some pc \<and> is_digit d \<and> (parseInt [d] + 1) * 12 + pc < 128"
  proof -
    from h NOTE_NAME_PC_letter [of np pc] obtain c where
      c: "is_note_letter c" "np = [c] \<or> np = [c, CHR ''#'']" by blast
    from h have no: "\<not> (\<exists>a c' d' b. is_note_letter c' \<and> is_digit d' \<and>
          (pre = a @ c' # d' # b \<or> pre = a @ c' # CHR ''#'' # d' # b))" and d: "is_digit d"
      by simp_all
    from name_match_leftmost [OF no c(1) d c(2), of rest] h show ?thesis
      by (simp add: nameToNo_unfold)
  qed
  show "nameToNo (pre @ np @ d # rest) = Inl InvalidNoteName"
    if h: "\<not> (\<exists>a c' d' b. is_note_letter c' \<and> is_digit d' \<and>
          (pre = a @ c' # d' # b \<or> pre = a @ c' # CHR ''#'' # d' # b)) \<and>
       CHR ''-'' \<notin> set pre \<and>
       is_note_letter c \<and> is_digit d \<and> (np = [c] \<or> np = [c, CHR ''#'']) \<and>
       NOTE_NAME_PC np = None"
  proof -
    from h have no: "\<not> (\<exists>a c' d' b. is_note_letter c' \<and> is_digit d' \<and>
          (pre = a @ c' # d' # b \<or> pre = a @ c' # CHR ''#'' # d' # b))"
      and c: "is_note_letter c" "is_digit d" "np = [c] \<or> np = [c, CHR ''#'']"
      by simp_all
    from name_match_leftmost [OF no c, of rest] h show ?thesis
      by (simp add: nameToNo_unfold)
  qed
  show "\<exists>pre' np' d' rest' pc'. name = pre' @ np' @ d' # rest' \<and> NOTE_NAME_PC np' = Some pc' \<and>
      is_digit d' \<and> n = (parseInt [d'] + 1) * 12 + pc'"
    if "CHR ''-'' \<notin> set name \<and> nameToNo name = Inr n"
  proof -
    from that obtain np' nd pc' where m: "name_match name = Some (np', nd)"
      and pc: "NOTE_NAME_PC np' = Some pc'" and n: "n = (parseInt nd + 1) * 12 + pc'"
      by (auto simp: nameToNo_unfold split: option.splits prod.splits)
    from name_match_sound [OF m] obtain pre' d' rest' where
      "name = pre' @ np' @ d' # rest'" "nd = [d']" "is_digit d'" by blast
    with pc n show ?thesis by blast
  qed
  show "nameToNo name = Inl InvalidNoteName"
    if h: "CHR ''-'' \<notin> set name \<and>
      \<not> (\<exists>a c' d' b. is_note_letter c' \<and> is_digit d' \<and>
          (name = a @ c' # d' # b \<or> name = a @ c' # CHR ''#'' # d' # b))"
  proof (cases "name_match name")
    case None
    then show ?thesis by (simp add: nameToNo_unfold)
  next
    case (Some m)
    obtain np' nd where m: "m = (np', nd)" by (cases m)
    from name_match_sound [OF Some [unfolded m]] obtain pre' c' d' rest' where
      e: "name = pre' @ np' @ d' # rest'" and dc: "is_digit d'" "is_note_letter c'"
      and np': "np' = [c'] \<or> np' = [c', CHR ''#'']" by blast
    from e np' have "name = pre' @ c' # d' # rest' \<or> name = pre' @ c' # CHR ''#'' # d' # rest'"
      by auto
    with dc have "\<exists>a c' d' b. is_note_letter c' \<and> is_digit d' \<and>
          (name = a @ c' # d' # b \<or> name = a @ c' # CHR ''#'' # d' # b)"
      by blast
    with h show ?thesis by blast
  qed
qed

text \<open>The theorem at the names \<open>xC4D5\<close> and \<open>xc4C5\<close>, which are read at their second
  character, and at \<open>C#4\<close>, \<open>G9xyz\<close>, \<open>c4\<close>, \<open>E#4\<close> and \<open>4\<close>.\<close>

theorem nameToNo_grammar_witness:
  "nameToNo ''xC4D5'' = Inr 60 \<and> nameToNo ''xc4C5'' = Inl InvalidNoteName \<and>
   nameToNo ''C#4'' = Inr 61 \<and> nameToNo ''G9xyz'' = Inr 127 \<and>
   nameToNo ''c4'' = Inl InvalidNoteName \<and> nameToNo ''E#4'' = Inl InvalidNoteName \<and>
   nameToNo ''4'' = Inl InvalidNoteName"
proof -
  have np: "NOTE_NAME_PC ''C#'' = Some 1" "NOTE_NAME_PC ''G'' = Some 7"
    "NOTE_NAME_PC ''C'' = Some 0"
    "NOTE_NAME_PC ''c'' = None" "NOTE_NAME_PC ''E#'' = None"
    by (simp_all add: NOTE_NAME_PC_def)
  have dg: "is_digit CHR ''4''" "is_digit CHR ''9''" "is_note_letter CHR ''c''"
    "is_note_letter CHR ''E''" "parseInt ''4'' = 4" "parseInt ''9'' = 9"
    by (simp_all add: is_digit_def is_note_letter_def parseInt_def)
  have no: "\<not> (\<exists>a c' d' b. is_note_letter c' \<and> is_digit d' \<and>
          (''4'' = a @ c' # d' # b \<or> ''4'' = a @ c' # CHR ''#'' # d' # b))"
    "\<not> (\<exists>a c' d' b. is_note_letter c' \<and> is_digit d' \<and>
          (''x'' = a @ c' # d' # b \<or> ''x'' = a @ c' # CHR ''#'' # d' # b))"
    "\<not> (\<exists>a c' d' b. is_note_letter c' \<and> is_digit d' \<and>
          ([] = a @ c' # d' # b \<or> [] = a @ c' # CHR ''#'' # d' # b))"
    by (auto simp: Cons_eq_append_conv)
  from nameToNo_grammar [of "''x''" "''C''" 0 "CHR ''4''" "''D5''" "CHR ''c''" "''4''" 0]
    nameToNo_grammar [of "''x''" "''c''" 0 "CHR ''4''" "''C5''" "CHR ''c''" "''4''" 0]
    nameToNo_grammar [of "[]" "''C#''" 1 "CHR ''4''" "[]" "CHR ''c''" "''4''" 0]
    nameToNo_grammar [of "[]" "''G''" 7 "CHR ''9''" "''xyz''" "CHR ''c''" "''4''" 0]
    nameToNo_grammar [of "[]" "''c''" 0 "CHR ''4''" "[]" "CHR ''c''" "''4''" 0]
    nameToNo_grammar [of "[]" "''E#''" 0 "CHR ''4''" "[]" "CHR ''E''" "''4''" 0]
    np dg no
  show ?thesis by simp
qed

text \<open>Claim C5 as it is stated fails: \<open>C10\<close> is a name of the stated grammar and parses
  as octave 1, to the number 24 and not 132; \<open>xC4\<close> is no name of the stated grammar and
  is accepted.\<close>

theorem nameToNo_grammar_counterexample:
  "spec_name_grammar ''C10'' \<and> nameToNo ''C10'' = Inr 24 \<and>
   \<not> spec_name_grammar ''xC4'' \<and> nameToNo ''xC4'' = Inr 60"
  by code_simp

lemma scale_steps_nonempty: "scale_steps r is \<noteq> []"
  by (cases "is") simp_all

lemma scale_steps_hd: "hd (scale_steps r is) = r"
  by (cases "is") simp_all

lemma length_scale_steps: "length (scale_steps r is) = length is + 1"
  by (induction "is" arbitrary: r) simp_all

lemma add_scale_notes_ok:
  "table_ok t \<Longrightarrow> ns \<noteq> [] \<Longrightarrow>
   \<forall>n\<in>set (tl (scale_steps (noteNo (last ns)) intervs)). 0 \<le> n \<and> n < 128 \<Longrightarrow>
   \<exists>t'. add_scale_notes intervs ns t =
          Inr (ns @ map Note_obj (tl (scale_steps (noteNo (last ns)) intervs)), t') \<and>
        table_ok t'"
proof (induction intervs arbitrary: ns t)
  case Nil
  then show ?case by simp
next
  case (Cons i intervs)
  let ?r = "noteNo (last ns) + i"
  have st: "tl (scale_steps (noteNo (last ns)) (i # intervs)) = scale_steps ?r intervs"
    by simp
  have r: "0 \<le> ?r \<and> ?r < 128"
    using Cons.prems(3) by (cases intervs) auto
  from offset_ok [OF Cons.prems(1), of "last ns" i] r obtain t1 where
    o: "offset (last ns) i t = Inr (Note_obj ?r, t1)" and t1: "table_ok t1" by auto
  have "\<forall>n\<in>set (tl (scale_steps (noteNo (last (ns @ [Note_obj ?r]))) intervs)).
          0 \<le> n \<and> n < 128"
    using Cons.prems(3) by (cases intervs) auto
  from Cons.IH [OF t1 _ this] obtain t' where
    a: "add_scale_notes intervs (ns @ [Note_obj ?r]) t1 =
          Inr ((ns @ [Note_obj ?r]) @
               map Note_obj (tl (scale_steps (noteNo (last (ns @ [Note_obj ?r]))) intervs)), t')"
    and t': "table_ok t'" by auto
  have "(ns @ [Note_obj ?r]) @
          map Note_obj (tl (scale_steps (noteNo (last (ns @ [Note_obj ?r]))) intervs)) =
        ns @ map Note_obj (scale_steps ?r intervs)"
    by (cases intervs) simp_all
  with a o t' show ?case by (simp add: Let_def)
qed

lemma add_scale_notes_fail:
  "table_ok t \<Longrightarrow> ns \<noteq> [] \<Longrightarrow>
   \<not> (\<forall>n\<in>set (tl (scale_steps (noteNo (last ns)) intervs)). 0 \<le> n \<and> n < 128) \<Longrightarrow>
   add_scale_notes intervs ns t = Inl InvalidNoteNumber"
proof (induction intervs arbitrary: ns t)
  case Nil
  then show ?case by simp
next
  case (Cons i intervs)
  let ?r = "noteNo (last ns) + i"
  show ?case
  proof (cases "0 \<le> ?r \<and> ?r < 128")
    case False
    from offset_fail [OF this] show ?thesis by (simp add: Let_def)
  next
    case True
    from offset_ok [OF Cons.prems(1), of "last ns" i] True obtain t1 where
      o: "offset (last ns) i t = Inr (Note_obj ?r, t1)" and t1: "table_ok t1" by auto
    have "\<not> (\<forall>n\<in>set (tl (scale_steps (noteNo (last (ns @ [Note_obj ?r]))) intervs)).
          0 \<le> n \<and> n < 128)"
      using Cons.prems(3) True by (cases intervs) auto
    from Cons.IH [OF t1 _ this] o show ?thesis by (simp add: Let_def)
  qed
qed

lemma gen_octaves_ok:
  "table_ok t \<Longrightarrow>
   (\<forall>octv. octNo \<le> octv \<and> octv < k \<longrightarrow>
      (\<forall>n\<in>set (scale_steps (r + 12 * int octv) intervs). 0 \<le> n \<and> n < 128)) \<Longrightarrow>
   \<exists>t'. gen_octaves (Note_obj r) intervs k octNo ns t =
          Inr (ns @ map Note_obj
                 (concat (map (\<lambda>octv. scale_steps (r + 12 * int octv) intervs) [octNo..<k])), t') \<and>
        table_ok t'"
proof (induction "k - octNo" arbitrary: octNo ns t)
  case 0
  then show ?case by (subst gen_octaves.simps) simp
next
  case (Suc d)
  then have lt: "octNo < k" by simp
  let ?r = "r + 12 * int octNo"
  have this_oct: "\<forall>n\<in>set (scale_steps ?r intervs). 0 \<le> n \<and> n < 128"
    using Suc.prems(2) [rule_format, of octNo] lt by simp
  then have "0 \<le> ?r \<and> ?r < 128"
    by (cases intervs) simp_all
  with shift_ok [OF Suc.prems(1), of "Note_obj r" "int octNo"] obtain t1 where
    s: "shift (Note_obj r) (int octNo) t = Inr (Note_obj ?r, t1)" and t1: "table_ok t1"
    by auto
  have "\<forall>n\<in>set (tl (scale_steps (noteNo (last (ns @ [Note_obj ?r]))) intervs)). 0 \<le> n \<and> n < 128"
    using this_oct by (cases intervs) simp_all
  from add_scale_notes_ok [OF t1 _ this] obtain t2 where
    a: "add_scale_notes intervs (ns @ [Note_obj ?r]) t1 =
          Inr ((ns @ [Note_obj ?r]) @
               map Note_obj (tl (scale_steps (noteNo (last (ns @ [Note_obj ?r]))) intervs)), t2)"
    and t2: "table_ok t2" by auto
  have e: "(ns @ [Note_obj ?r]) @
             map Note_obj (tl (scale_steps (noteNo (last (ns @ [Note_obj ?r]))) intervs)) =
           ns @ map Note_obj (scale_steps ?r intervs)"
    by (cases intervs) simp_all
  have d: "d = k - (octNo + 1)" using Suc.hyps(2) by simp
  have later: "\<forall>octv. octNo + 1 \<le> octv \<and> octv < k \<longrightarrow>
      (\<forall>n\<in>set (scale_steps (r + 12 * int octv) intervs). 0 \<le> n \<and> n < 128)"
  proof (intro allI impI)
    fix octv assume "octNo + 1 \<le> octv \<and> octv < k"
    then have "octNo \<le> octv \<and> octv < k" by simp
    with Suc.prems(2) show "\<forall>n\<in>set (scale_steps (r + 12 * int octv) intervs). 0 \<le> n \<and> n < 128"
      by blast
  qed
  from Suc.hyps(1) [OF d t2 later, of "ns @ map Note_obj (scale_steps ?r intervs)"]
  obtain t' where
    g: "gen_octaves (Note_obj r) intervs k (octNo + 1) (ns @ map Note_obj (scale_steps ?r intervs)) t2 =
          Inr ((ns @ map Note_obj (scale_steps ?r intervs)) @ map Note_obj
                 (concat (map (\<lambda>octv. scale_steps (r + 12 * int octv) intervs) [octNo + 1..<k])), t')"
    and t': "table_ok t'" by auto
  have u: "[octNo..<k] = octNo # [octNo + 1..<k]"
    using lt by (simp add: upt_conv_Cons)
  show ?case
    using lt s a e g t' by (subst gen_octaves.simps) (simp add: u)
qed

lemma gen_octaves_fail:
  "table_ok t \<Longrightarrow>
   \<not> (\<forall>octv. octNo \<le> octv \<and> octv < k \<longrightarrow>
      (\<forall>n\<in>set (scale_steps (r + 12 * int octv) intervs). 0 \<le> n \<and> n < 128)) \<Longrightarrow>
   gen_octaves (Note_obj r) intervs k octNo ns t = Inl InvalidNoteNumber"
proof (induction "k - octNo" arbitrary: octNo ns t)
  case 0
  then show ?case by auto
next
  case (Suc d)
  then have lt: "octNo < k" by simp
  let ?r = "r + 12 * int octNo"
  show ?case
  proof (cases "0 \<le> ?r \<and> ?r < 128")
    case False
    from shift_fail [of "Note_obj r" "int octNo" t] False
    show ?thesis using lt by (subst gen_octaves.simps) simp
  next
    case True
    with shift_ok [OF Suc.prems(1), of "Note_obj r" "int octNo"] obtain t1 where
      s: "shift (Note_obj r) (int octNo) t = Inr (Note_obj ?r, t1)" and t1: "table_ok t1"
      by auto
    show ?thesis
    proof (cases "\<forall>n\<in>set (tl (scale_steps ?r intervs)). 0 \<le> n \<and> n < 128")
      case False
      then have "\<not> (\<forall>n\<in>set (tl (scale_steps (noteNo (last (ns @ [Note_obj ?r]))) intervs)).
          0 \<le> n \<and> n < 128)" by simp
      from add_scale_notes_fail [OF t1 _ this] s lt show ?thesis
        by (subst gen_octaves.simps) simp
    next
      case tl_ok: True
      then have "\<forall>n\<in>set (tl (scale_steps (noteNo (last (ns @ [Note_obj ?r]))) intervs)).
          0 \<le> n \<and> n < 128" by simp
      from add_scale_notes_ok [OF t1 _ this] obtain t2 ns2 where
        a: "add_scale_notes intervs (ns @ [Note_obj ?r]) t1 = Inr (ns2, t2)"
        and t2: "table_ok t2" by auto
      have this_oct: "\<forall>n\<in>set (scale_steps ?r intervs). 0 \<le> n \<and> n < 128"
        using True tl_ok by (cases intervs) simp_all
      have later: "\<not> (\<forall>octv. octNo + 1 \<le> octv \<and> octv < k \<longrightarrow>
          (\<forall>n\<in>set (scale_steps (r + 12 * int octv) intervs). 0 \<le> n \<and> n < 128))"
      proof
        assume l: "\<forall>octv. octNo + 1 \<le> octv \<and> octv < k \<longrightarrow>
          (\<forall>n\<in>set (scale_steps (r + 12 * int octv) intervs). 0 \<le> n \<and> n < 128)"
        have "\<forall>octv. octNo \<le> octv \<and> octv < k \<longrightarrow>
          (\<forall>n\<in>set (scale_steps (r + 12 * int octv) intervs). 0 \<le> n \<and> n < 128)"
        proof (intro allI impI)
          fix octv assume o: "octNo \<le> octv \<and> octv < k"
          show "\<forall>n\<in>set (scale_steps (r + 12 * int octv) intervs). 0 \<le> n \<and> n < 128"
          proof (cases "octv = octNo")
            case True
            with this_oct show ?thesis by simp
          next
            case False
            with o have "octNo + 1 \<le> octv \<and> octv < k" by simp
            with l show ?thesis by blast
          qed
        qed
        with Suc.prems(2) show False by blast
      qed
      have d: "d = k - (octNo + 1)" using Suc.hyps(2) by simp
      from Suc.hyps(1) [OF d t2 later, of ns2] s a lt show ?thesis
        by (subst gen_octaves.simps) simp
    qed
  qed
qed

lemma length_scale_numbers:
  "length (scale_numbers r intervs k) = k * length intervs + k + 1"
  by (induction k) (simp_all add: scale_numbers_def length_scale_steps)

lemma set_scale_numbers:
  "(\<forall>n\<in>set (scale_numbers r intervs k). P n) \<longleftrightarrow>
   (\<forall>octv. 0 \<le> octv \<and> octv < k \<longrightarrow> (\<forall>n\<in>set (scale_steps (r + 12 * int octv) intervs). P n)) \<and>
   P (r + 12 * int k)"
  by (auto simp: scale_numbers_def)

lemma genScale_ok:
  assumes t: "table_ok t" and sc: "scaleIntervs scale = Some intervs"
    and k: "k = (case numOct of None \<Rightarrow> 1 | Some k \<Rightarrow> k)"
    and r: "\<forall>n\<in>set (scale_numbers (noteNo nt) intervs k). 0 \<le> n \<and> n < 128"
  shows "\<exists>t'. genScale (Inl nt) scale numOct t =
            Inr (map Note_obj (scale_numbers (noteNo nt) intervs k), t') \<and> table_ok t'"
proof -
  obtain rn where nt: "nt = Note_obj rn" by (cases nt) auto
  from r have octs: "\<forall>octv. 0 \<le> octv \<and> octv < k \<longrightarrow>
      (\<forall>n\<in>set (scale_steps (rn + 12 * int octv) intervs). 0 \<le> n \<and> n < 128)"
    and top: "0 \<le> rn + 12 * int k \<and> rn + 12 * int k < 128"
    by (simp_all add: set_scale_numbers nt)
  from gen_octaves_ok [OF t octs, of "[]"] obtain t1 where
    g: "gen_octaves (Note_obj rn) intervs k 0 [] t =
          Inr (map Note_obj (concat (map (\<lambda>octv. scale_steps (rn + 12 * int octv) intervs) [0..<k])), t1)"
    and t1: "table_ok t1" by auto
  from shift_ok [OF t1, of "Note_obj rn" "int k"] top obtain t2 where
    s: "shift (Note_obj rn) (int k) t1 = Inr (Note_obj (rn + 12 * int k), t2)"
    and t2: "table_ok t2" by auto
  show ?thesis
    using sc g s t2 k [symmetric] by (simp add: genScale_def nt scale_numbers_def)
qed

lemma genScale_fail:
  assumes t: "table_ok t" and sc: "scaleIntervs scale = Some intervs"
    and k: "k = (case numOct of None \<Rightarrow> 1 | Some k \<Rightarrow> k)"
    and r: "\<not> (\<forall>n\<in>set (scale_numbers (noteNo nt) intervs k). 0 \<le> n \<and> n < 128)"
  shows "genScale (Inl nt) scale numOct t = Inl InvalidNoteNumber"
proof -
  obtain rn where nt: "nt = Note_obj rn" by (cases nt) auto
  let ?octs = "\<forall>octv. 0 \<le> octv \<and> octv < k \<longrightarrow>
      (\<forall>n\<in>set (scale_steps (rn + 12 * int octv) intervs). 0 \<le> n \<and> n < 128)"
  show ?thesis
  proof (cases ?octs)
    case False
    from gen_octaves_fail [OF t False, of "[]"] sc k [symmetric] show ?thesis
      by (simp add: genScale_def nt)
  next
    case True
    with r have top: "\<not> (0 \<le> rn + 12 * int k \<and> rn + 12 * int k < 128)"
      by (simp add: set_scale_numbers nt)
    from gen_octaves_ok [OF t True, of "[]"] obtain ns1 t1 where
      g: "gen_octaves (Note_obj rn) intervs k 0 [] t = Inr (ns1, t1)" by auto
    from shift_fail [of "Note_obj rn" "int k" t1] top
    have "shift (Note_obj rn) (int k) t1 = Inl InvalidNoteNumber" by simp
    with sc g k [symmetric] show ?thesis
      by (simp add: genScale_def nt)
  qed
qed

text \<open>A root given as a number is first made a note.\<close>

lemma genScale_root_number:
  assumes "table_ok t"
  shows "\<exists>t1. table_ok t1 \<and> genScale (Inr (Num n)) scale numOct t =
           genScale (Inl (Note_obj n)) scale numOct t1"
proof -
  from new_Note_Num [OF assms, of n] obtain t1 where
    "new_Note (Num n) t = Inr (Note_obj n, t1)" "table_ok t1" by auto
  then show ?thesis
    by (intro exI [of _ t1]) (simp add: genScale_def)
qed

text \<open>
  Claim C8, as the code has it. For a root given as a note and a table of notes as the
  constructor fills it, \<open>genScale\<close> fails with \<open>UnknownScale\<close> when the scale name has no
  intervals. Otherwise it goes through the octaves: the root of the octave, then from
  each note the next one by the next interval, and at the end the root \<open>numOctaves\<close>
  octaves up. When all these numbers lie in the range from 0 to 127 it returns their
  notes in this order, \<open>numOctaves * patternLength + numOctaves + 1\<close> of them; when one of
  them lies outside, it fails with \<open>InvalidNoteNumber\<close>.
\<close>

theorem genScale_result:
  assumes "table_ok t" and "k = (case numOct of None \<Rightarrow> 1 | Some k \<Rightarrow> k)"
  shows "(scaleIntervs scale = None \<longrightarrow> genScale (Inl nt) scale numOct t = Inl UnknownScale) \<and>
    (scaleIntervs scale = Some intervs \<longrightarrow>
       (if \<forall>n\<in>set (scale_numbers (noteNo nt) intervs k). 0 \<le> n \<and> n < 128
        then (\<exists>t'. genScale (Inl nt) scale numOct t =
                     Inr (map Note_obj (scale_numbers (noteNo nt) intervs k), t') \<and> table_ok t') \<and>
             length (scale_numbers (noteNo nt) intervs k) = k * length intervs + k + 1
        else genScale (Inl nt) scale numOct t = Inl InvalidNoteNumber))"
proof (intro conjI impI)
  show "genScale (Inl nt) scale numOct t = Inl UnknownScale" if "scaleIntervs scale = None"
    using that by (simp add: genScale_def)
  show "if \<forall>n\<in>set (scale_numbers (noteNo nt) intervs k). 0 \<le> n \<and> n < 128
        then (\<exists>t'. genScale (Inl nt) scale numOct t =
                     Inr (map Note_obj (scale_numbers (noteNo nt) intervs k), t') \<and> table_ok t') \<and>
             length (scale_numbers (noteNo nt) intervs k) = k * length intervs + k + 1
        else genScale (Inl nt) scale numOct t = Inl InvalidNoteNumber"
    if "scaleIntervs scale = Some intervs"
    using genScale_ok [OF assms(1) that assms(2)] genScale_fail [OF assms(1) that assms(2)]
    by (simp add: length_scale_numbers)
qed

text \<open>The theorem at the major scale over one octave from the note 60: eight notes,
  strictly ascending; and at a scale name that is not in the table.\<close>

theorem genScale_result_witness:
  "map_sum id (map noteNo \<circ> fst) (genScale (Inl (Note_obj 60)) ''major'' (Some 1) Map.empty) =
     Inr [60, 62, 64, 65, 67, 69, 71, 72] \<and>
   length [60, 62, 64, 65, 67, 69, 71, 72 :: int] = 1 * length [2, 2, 1, 2, 2, 2 :: int] + 1 + 1 \<and>
   sorted_wrt (<) [60, 62, 64, 65, 67, 69, 71, 72 :: int] \<and>
   genScale (Inl (Note_obj 60)) ''dorian'' (Some 1) Map.empty = Inl UnknownScale"
proof -
  have sc: "scaleIntervs ''major'' = Some [2, 2, 1, 2, 2, 2]" "scaleIntervs ''dorian'' = None"
    by (simp_all add: scaleIntervs_def)
  have nums: "scale_numbers 60 [2, 2, 1, 2, 2, 2] (Suc 0) = [60, 62, 64, 65, 67, 69, 71, 72]"
    by (simp add: scale_numbers_def)
  from genScale_result [OF table_ok_empty, of "Suc 0" "Some (Suc 0)" "''major''" "Note_obj 60"
      "[2, 2, 1, 2, 2, 2]"]
    genScale_result [OF table_ok_empty, of "Suc 0" "Some (Suc 0)" "''dorian''" "Note_obj 60" "[]"]
  show ?thesis
    by (auto simp: sc nums)
qed

text \<open>Claim C8 as it is stated fails: the major scale is known, and from the note 120
  no sequence is returned, since the closing note would have the number 132.\<close>

theorem genScale_out_of_range_counterexample:
  "scaleIntervs ''major'' = Some [2, 2, 1, 2, 2, 2] \<and>
   genScale (Inl (Note_obj 120)) ''major'' (Some 1) Map.empty = Inl InvalidNoteNumber"
  by (simp add: scaleIntervs_def genScale_def gen_octaves.simps shift_def offset_def new_Note_def
      NOTES_PER_OCTAVE_def NUM_NOTES_def Let_def)

section \<open>Properties of the overdrive node\<close>

lemma overdrive_sample_below:
  "\<bar>x * gain od\<bar> \<le> threshold od \<Longrightarrow> overdrive_sample od x = x * gain od"
  by (simp add: overdrive_sample_def Let_def)

lemma overdrive_sample_above:
  assumes "threshold od < \<bar>x * gain od\<bar>"
  shows "overdrive_sample od x =
           (if x * gain od > 0 then 1 else - 1) *
           ((\<bar>x * gain od\<bar> - (\<bar>x * gain od\<bar> - threshold od)) +
            (\<bar>x * gain od\<bar> - threshold od) / factor od)"
  using assms by (simp add: overdrive_sample_def Let_def divide_inverse mult.commute)

lemma length_update_from: "length (update_from od inBuf i outBuf) = length outBuf"
proof (induction od inBuf i outBuf rule: update_from.induct)
  case (1 od inBuf i outBuf)
  then show ?case
    by (subst update_from.simps) simp
qed

lemma update_from_nth:
  "j < length outBuf \<Longrightarrow>
   update_from od inBuf i outBuf ! j =
     (if i \<le> j \<and> j < length inBuf then overdrive_sample od (inBuf ! j) else outBuf ! j)"
proof (induction od inBuf i outBuf rule: update_from.induct)
  case (1 od inBuf i outBuf)
  show ?case
  proof (cases "i < length inBuf")
    case True
    from 1 True have ih: "update_from od inBuf (i + 1) (outBuf[i := overdrive_sample od (inBuf ! i)]) ! j =
        (if i + 1 \<le> j \<and> j < length inBuf then overdrive_sample od (inBuf ! j)
         else outBuf[i := overdrive_sample od (inBuf ! i)] ! j)"
      by simp
    have step: "update_from od inBuf i outBuf =
        update_from od inBuf (i + 1) (outBuf[i := overdrive_sample od (inBuf ! i)])"
      using True by (subst update_from.simps) simp
    have "update_from od inBuf i outBuf ! j =
        (if i + 1 \<le> j \<and> j < length inBuf then overdrive_sample od (inBuf ! j)
         else outBuf[i := overdrive_sample od (inBuf ! i)] ! j)"
      by (simp only: step ih)
    moreover have "i = j" if "i \<le> j" "\<not> i + 1 \<le> j"
      using that by simp
    ultimately show ?thesis
      using True "1.prems" by (cases "i = j") (auto simp: nth_list_update)
  next
    case False
    then show ?thesis
      by (subst update_from.simps) auto
  qed
qed

text \<open>
  Claim C9, as the code has it, in exact arithmetic. For a threshold that is not negative
  and a positive factor: a sample whose scaled value \<open>x * gain\<close> has a magnitude up to the
  threshold passes as \<open>x * gain\<close>; a larger one leaves with the magnitude
  \<open>(|x * gain| - d) + d / factor\<close>, where \<open>d = |x * gain| - threshold\<close>; the output has
  the sign of the scaled sample, which is the sign of the input sample when the gain is
  positive. Without data on the input the output buffer stays as it is; with data, the
  entry at every index of both buffers is the output for the input sample there.
\<close>

theorem overdrive_sample_result:
  assumes th: "0 \<le> threshold od" and fa: "0 < factor od"
  shows "(\<bar>x * gain od\<bar> \<le> threshold od \<longrightarrow> overdrive_sample od x = x * gain od) \<and>
    (threshold od < \<bar>x * gain od\<bar> \<longrightarrow>
       \<bar>overdrive_sample od x\<bar> =
         (\<bar>x * gain od\<bar> - (\<bar>x * gain od\<bar> - threshold od)) +
         (\<bar>x * gain od\<bar> - threshold od) / factor od) \<and>
    sgn (overdrive_sample od x) = sgn (x * gain od) \<and>
    (0 < gain od \<longrightarrow> sgn (overdrive_sample od x) = sgn x) \<and>
    Overdrive_update od None outBuf = outBuf \<and>
    (i < length inBuf \<and> i < length outBuf \<longrightarrow>
       Overdrive_update od (Some inBuf) outBuf ! i = overdrive_sample od (inBuf ! i)) \<and>
    length (Overdrive_update od (Some inBuf) outBuf) = length outBuf"
proof -
  define s where "s = x * gain od"
  define m where "m = (\<bar>s\<bar> - (\<bar>s\<bar> - threshold od)) + (\<bar>s\<bar> - threshold od) / factor od"
  define v where "v = overdrive_sample od x"
  have below: "v = s" if "\<bar>s\<bar> \<le> threshold od"
    using that by (simp add: v_def s_def overdrive_sample_below)
  have above: "v = (if s > 0 then 1 else - 1) * m" if "threshold od < \<bar>s\<bar>"
    using that overdrive_sample_above [of od x] by (simp add: v_def s_def m_def)
  have pos: "0 < m" if "threshold od < \<bar>s\<bar>"
  proof -
    have "0 < (\<bar>s\<bar> - threshold od) / factor od"
      using that fa by simp
    with th show ?thesis by (simp add: m_def)
  qed
  have mag: "\<bar>v\<bar> = m" if "threshold od < \<bar>s\<bar>"
    using pos [OF that] above [OF that] by (cases "s > 0") simp_all
  have sg: "sgn v = sgn s"
  proof (cases "threshold od < \<bar>s\<bar>")
    case True
    with th have "s \<noteq> 0" by auto
    with pos [OF True] above [OF True] show ?thesis
      by (cases "s > 0") (simp_all add: sgn_if)
  next
    case False
    then show ?thesis by (simp add: below)
  qed
  have sg': "sgn v = sgn x" if "0 < gain od"
    using sg that by (simp add: s_def sgn_mult)
  have upd: "Overdrive_update od (Some inBuf) outBuf ! i = overdrive_sample od (inBuf ! i)"
    if "i < length inBuf \<and> i < length outBuf"
    using that update_from_nth [of i outBuf od inBuf 0] by (simp add: Overdrive_update_def)
  have len: "length (Overdrive_update od (Some inBuf) outBuf) = length outBuf"
    by (simp add: Overdrive_update_def length_update_from)
  have none: "Overdrive_update od None outBuf = outBuf"
    by (simp add: Overdrive_update_def)
  from below mag sg sg' upd len none show ?thesis
    unfolding v_def s_def m_def by (intro conjI impI) simp_all
qed

text \<open>The theorem at threshold 0.7, factor 2 and gain 1: the input 1 gives 0.85, the
  input 0.5 passes.\<close>

theorem overdrive_sample_result_witness:
  "overdrive_sample \<lparr>gain = 1, threshold = 7 / 10, factor = 2\<rparr> 1 = 85 / 100 \<and>
   overdrive_sample \<lparr>gain = 1, threshold = 7 / 10, factor = 2\<rparr> (1 / 2) = 1 / 2 \<and>
   Overdrive_update \<lparr>gain = 1, threshold = 7 / 10, factor = 2\<rparr> (Some [1, 1 / 2]) [0, 0] ! 0 =
     overdrive_sample \<lparr>gain = 1, threshold = 7 / 10, factor = 2\<rparr> 1 \<and>
   Overdrive_update \<lparr>gain = 1, threshold = 7 / 10, factor = 2\<rparr> None [3, 4] = [3, 4]"
proof -
  have a: "overdrive_sample \<lparr>gain = 1, threshold = 7 / 10, factor = 2\<rparr> 1 = 85 / 100"
    by (simp add: overdrive_sample_def Let_def)
  from overdrive_sample_result [of "\<lparr>gain = 1, threshold = 7 / 10, factor = 2\<rparr>" "1 / 2"
        "[3, 4]" 0 "[1, 1 / 2]"]
      overdrive_sample_result [of "\<lparr>gain = 1, threshold = 7 / 10, factor = 2\<rparr>" 1
        "[0, 0]" 0 "[1, 1 / 2]"] a
  show ?thesis by simp
qed

text \<open>Claim C9 as it is stated fails. With the gain -1 the input 0.5 leaves as -0.5, of
  the other sign than the input sample. With the factor -1 (threshold 0.7, gain 1) the
  input 2 leaves as -0.6: the sign is lost whichever sample it is compared with, and
  the stated magnitude \<open>(|s| - d) + d / factor\<close> would be negative.\<close>

theorem overdrive_sign_counterexample:
  "overdrive_sample \<lparr>gain = - 1, threshold = 7 / 10, factor = 2\<rparr> (1 / 2) = - (1 / 2) \<and>
   sgn (overdrive_sample \<lparr>gain = - 1, threshold = 7 / 10, factor = 2\<rparr> (1 / 2)) \<noteq>
     sgn (1 / 2 :: real) \<and>
   overdrive_sample \<lparr>gain = 1, threshold = 7 / 10, factor = - 1\<rparr> 2 = - (6 / 10) \<and>
   sgn (overdrive_sample \<lparr>gain = 1, threshold = 7 / 10, factor = - 1\<rparr> 2) \<noteq> sgn (2 :: real)"
  by (simp add: overdrive_sample_def Let_def)

end
